theory Spec2Isabelle
  imports Main "HOL-Library.List_Lexorder" "HOL-Library.Char_ord"
begin

section \<open>The email scraper of zaiscrape.py\<close>

text \<open>
  The program is one Python file: the class \<^verbatim>\<open>EmailScraper\<close> (the crawl engine) and the
  class \<^verbatim>\<open>EmailScraperUI\<close> (its caller). The engine is embedded as functions on a record
  of the object's fields. Python strings are \<open>string\<close>; a Python \<^verbatim>\<open>set\<close> of strings is a
  list without duplicates, \<^verbatim>\<open>add\<close> being \<open>List.insert\<close> and \<^verbatim>\<open>in\<close> being membership in
  \<open>set\<close>; an exception is a value of type \<open>exn\<close> carrying the text of \<^verbatim>\<open>str(e)\<close>.
  The two callbacks given to \<^verbatim>\<open>__init__\<close> return nothing to the scraper, so a call of one
  of them is recorded, with its argument, in the field \<open>trace\<close> of the object, and the
  window is a reader of that trace.
\<close>

subsection \<open>Exceptions, library results, the outside world\<close>

text \<open>
  The two handlers of \<^verbatim>\<open>_crawl_page\<close> tell \<^verbatim>\<open>requests.exceptions.RequestException\<close>
  from every other \<^verbatim>\<open>Exception\<close>.
\<close>

datatype exn = RequestException string | OtherException string

text \<open>What the code reads of \<^verbatim>\<open>urlparse(url)\<close>: the attributes \<^verbatim>\<open>scheme\<close> and \<^verbatim>\<open>netloc\<close>.\<close>

record parse_result =
  scheme :: string
  netloc :: string

text \<open>
  What the code uses of a \<^verbatim>\<open>requests\<close> response: \<^verbatim>\<open>raise_for_status()\<close> (the exception
  it raises, if any) and \<^verbatim>\<open>text\<close>. The attribute \<^verbatim>\<open>status_code\<close>, which the code never
  reads, is kept so that a response can be said to have a status.
\<close>

record response =
  status_code :: nat
  raise_for_status :: "exn option"
  response_text :: string

text \<open>
  What the code uses of a parsed document: \<^verbatim>\<open>soup.get_text()\<close> and the \<^verbatim>\<open>href\<close>
  attributes of \<^verbatim>\<open>soup.find_all('a', href=True)\<close>, in document order.
\<close>

record soup =
  get_text :: string
  find_all_a_href :: "string list"

text \<open>
  Everything the program calls but does not define is a field of the environment:
  the library functions \<^verbatim>\<open>urlparse\<close>, \<^verbatim>\<open>urljoin\<close>, \<^verbatim>\<open>requests.get\<close>, \<^verbatim>\<open>BeautifulSoup\<close>
  and \<^verbatim>\<open>re.findall\<close> (with the pattern of \<^verbatim>\<open>_find_emails_on_page\<close>), each returning
  \<open>Inl\<close> of the exception where it may raise; the element that \<^verbatim>\<open>set.pop()\<close> picks; the
  order in which \<^verbatim>\<open>list(a_set)\<close> enumerates; and the moment another thread calls
  \<^verbatim>\<open>stop_scraping\<close>. The natural number given to \<open>requests_get\<close>, \<open>pop_choice\<close> and
  \<open>stop_requested\<close> is the number of loop iterations of \<^verbatim>\<open>start_scraping\<close> begun so far, so
  that the network, the choice and the cancellation may differ from one iteration to the next.
\<close>

record env =
  urlparse :: "string \<Rightarrow> exn + parse_result"
  urljoin :: "string \<Rightarrow> string \<Rightarrow> exn + string"
  requests_get :: "nat \<Rightarrow> string \<Rightarrow> exn + response"
  BeautifulSoup :: "string \<Rightarrow> exn + soup"
  re_findall_email :: "string \<Rightarrow> string list"
  pop_choice :: "nat \<Rightarrow> nat"
  set_order :: "string \<Rightarrow> nat"
  stop_requested :: "nat \<Rightarrow> bool"

text \<open>
  The effects of a run, in the order they happen: a call of \<^verbatim>\<open>status_callback\<close>, a call of
  \<^verbatim>\<open>result_callback\<close>, a call of \<^verbatim>\<open>requests.get\<close>, a call of \<^verbatim>\<open>time.sleep\<close>.
\<close>

datatype event = Status string | Result "string list" | Get string | Sleep nat

subsection \<open>The class EmailScraper\<close>

record scraper =
  base_url :: string
  domain :: string
  emails_found :: "string list"
  visited_urls :: "string list"
  urls_to_visit :: "string list"
  is_scraping :: bool
  max_pages :: nat
  trace :: "event list"

definition emit :: "event \<Rightarrow> scraper \<Rightarrow> scraper" where
  "emit e s = s\<lparr>trace := trace s @ [e]\<rparr>"

definition status_callback :: "string \<Rightarrow> scraper \<Rightarrow> scraper" where
  "status_callback message s = emit (Status message) s"

definition result_callback :: "string list \<Rightarrow> scraper \<Rightarrow> scraper" where
  "result_callback emails s = emit (Result emails) s"

text \<open>\<^verbatim>\<open>__init__\<close>: \<^verbatim>\<open>urlparse(base_url)\<close> may raise, and then no object exists.\<close>

definition EmailScraper_init :: "env \<Rightarrow> string \<Rightarrow> exn + scraper" where
  "EmailScraper_init env url =
     (case urlparse env url of
        Inl e \<Rightarrow> Inl e
      | Inr parsed \<Rightarrow>
          Inr \<lparr>base_url = url, domain = netloc parsed, emails_found = [],
               visited_urls = [], urls_to_visit = [url], is_scraping = True,
               max_pages = 50, trace = []\<rparr>)"

text \<open>\<^verbatim>\<open>_is_valid_url\<close>: the bare \<^verbatim>\<open>except\<close> turns every exception into \<^verbatim>\<open>False\<close>.\<close>

definition is_valid_url :: "env \<Rightarrow> scraper \<Rightarrow> string \<Rightarrow> bool" where
  "is_valid_url env s url =
     (case urlparse env url of
        Inl e \<Rightarrow> False
      | Inr parsed_url \<Rightarrow>
          (let is_same_domain = (netloc parsed_url = domain s);
               is_http_or_https = (scheme parsed_url \<in> set [''http'', ''https'']);
               is_not_visited = (url \<notin> set (visited_urls s))
           in is_same_domain \<and> is_http_or_https \<and> is_not_visited))"

definition find_emails_on_page :: "env \<Rightarrow> soup \<Rightarrow> string list" where
  "find_emails_on_page env sp = re_findall_email env (get_text sp)"

text \<open>The first \<^verbatim>\<open>for\<close> loop of \<^verbatim>\<open>_crawl_page\<close>.\<close>

fun add_emails :: "scraper \<Rightarrow> string list \<Rightarrow> scraper" where
  "add_emails s [] = s"
| "add_emails s (email # new_emails) =
     add_emails
       (if email \<notin> set (emails_found s)
        then status_callback (''Found Email: '' @ email)
               (s\<lparr>emails_found := List.insert email (emails_found s)\<rparr>)
        else s)
       new_emails"

text \<open>
  The second \<^verbatim>\<open>for\<close> loop of \<^verbatim>\<open>_crawl_page\<close>. \<^verbatim>\<open>urljoin\<close> is called outside
  \<^verbatim>\<open>_is_valid_url\<close>, so an exception it raises leaves the loop; the result is the state
  reached and the exception, if any.
\<close>

fun add_links :: "env \<Rightarrow> scraper \<Rightarrow> string list \<Rightarrow> scraper \<times> exn option" where
  "add_links env s [] = (s, None)"
| "add_links env s (href # links) =
     (case urljoin env (base_url s) href of
        Inl e \<Rightarrow> (s, Some e)
      | Inr absolute_url \<Rightarrow>
          add_links env
            (if is_valid_url env s absolute_url
             then s\<lparr>urls_to_visit := List.insert absolute_url (urls_to_visit s)\<rparr>
             else s)
            links)"

text \<open>The body of the \<^verbatim>\<open>try\<close> of \<^verbatim>\<open>_crawl_page\<close>, after the first status line.\<close>

definition crawl_try :: "env \<Rightarrow> nat \<Rightarrow> scraper \<Rightarrow> string \<Rightarrow> scraper \<times> exn option" where
  "crawl_try env k s url =
     (let s1 = emit (Get url) s in
      case requests_get env k url of
        Inl e \<Rightarrow> (s1, Some e)
      | Inr resp \<Rightarrow>
          (case raise_for_status resp of
             Some e \<Rightarrow> (s1, Some e)
           | None \<Rightarrow>
               (case BeautifulSoup env (response_text resp) of
                  Inl e \<Rightarrow> (s1, Some e)
                | Inr sp \<Rightarrow>
                    (let new_emails = find_emails_on_page env sp;
                         s2 = add_emails s1 new_emails
                     in add_links env s2 (find_all_a_href sp)))))"

definition crawl_page :: "env \<Rightarrow> nat \<Rightarrow> scraper \<Rightarrow> string \<Rightarrow> scraper" where
  "crawl_page env k s url =
     (case crawl_try env k (status_callback (''Visiting: '' @ url) s) url of
        (s', None) \<Rightarrow> s'
      | (s', Some (RequestException e)) \<Rightarrow>
          status_callback (''Error visiting '' @ url @ '': '' @ e) s'
      | (s', Some (OtherException e)) \<Rightarrow>
          status_callback (''An unexpected error occurred: '' @ e) s')"

definition stop_scraping :: "scraper \<Rightarrow> scraper" where
  "stop_scraping s = s\<lparr>is_scraping := False\<rparr>"

text \<open>
  What the loop test of \<^verbatim>\<open>start_scraping\<close> sees at iteration \<open>k\<close>: the object, after
  \<^verbatim>\<open>stop_scraping\<close> if another thread has called it by then.
\<close>

definition observe :: "env \<Rightarrow> nat \<Rightarrow> scraper \<Rightarrow> scraper" where
  "observe env k s = (if stop_requested env k then stop_scraping s else s)"

definition loop_cond :: "nat \<Rightarrow> scraper \<Rightarrow> bool" where
  "loop_cond pages_crawled s \<longleftrightarrow>
     urls_to_visit s \<noteq> [] \<and> pages_crawled < max_pages s \<and> is_scraping s"

text \<open>\<^verbatim>\<open>self.urls_to_visit.pop()\<close> on a set that is not empty: some element leaves the set.\<close>

definition pop :: "env \<Rightarrow> nat \<Rightarrow> scraper \<Rightarrow> string \<times> scraper" where
  "pop env k s =
     (let i = pop_choice env k mod length (urls_to_visit s)
      in (urls_to_visit s ! i,
          s\<lparr>urls_to_visit := take i (urls_to_visit s) @ drop (Suc i) (urls_to_visit s)\<rparr>))"

definition loop_body :: "env \<Rightarrow> nat \<Rightarrow> nat \<Rightarrow> scraper \<Rightarrow> nat \<times> scraper" where
  "loop_body env k pages_crawled s =
     (case pop env k s of
        (current_url, s1) \<Rightarrow>
          if current_url \<notin> set (visited_urls s1)
          then (let s2 = s1\<lparr>visited_urls := List.insert current_url (visited_urls s1)\<rparr>;
                    s3 = crawl_page env k s2 current_url
                in (pages_crawled + 1, emit (Sleep 1) s3))
          else (pages_crawled, s1))"

lemma max_pages_emit [simp]: "max_pages (emit e s) = max_pages s"
  by (simp add: emit_def)

lemma max_pages_status [simp]: "max_pages (status_callback m s) = max_pages s"
  by (simp add: status_callback_def)

lemma max_pages_add_emails [simp]: "max_pages (add_emails s es) = max_pages s"
  by (induction es arbitrary: s) simp_all

lemma max_pages_add_links [simp]: "max_pages (fst (add_links env s ls)) = max_pages s"
  by (induction ls arbitrary: s) (simp_all split: sum.splits)

lemma max_pages_crawl_try [simp]: "max_pages (fst (crawl_try env k s url)) = max_pages s"
  by (simp add: crawl_try_def Let_def split: sum.splits option.splits)

lemma max_pages_crawl_page [simp]: "max_pages (crawl_page env k s url) = max_pages s"
proof -
  define s0 where "s0 = status_callback (''Visiting: '' @ url) s"
  obtain s' r where c: "crawl_try env k s0 url = (s', r)"
    by (cases "crawl_try env k s0 url")
  have "max_pages (fst (crawl_try env k s0 url)) = max_pages s0"
    by (rule max_pages_crawl_try)
  then have "max_pages s' = max_pages s0"
    by (simp add: c)
  then have "max_pages s' = max_pages s"
    by (simp add: s0_def)
  then show ?thesis
    unfolding crawl_page_def s0_def [symmetric] c
    by (simp split: option.splits exn.splits)
qed

lemma max_pages_observe [simp]: "max_pages (observe env k s) = max_pages s"
  by (simp add: observe_def stop_scraping_def)

lemma loop_body_measure:
  assumes "loop_cond p s" and "loop_body env k p s = (p', s')"
  shows "max_pages s' = max_pages s \<and>
         (max_pages s - p' < max_pages s - p \<or>
          p' = p \<and> length (urls_to_visit s') < length (urls_to_visit s))"
proof -
  let ?i = "pop_choice env k mod length (urls_to_visit s)"
  have ne: "urls_to_visit s \<noteq> []" and lt: "p < max_pages s"
    using assms(1) by (simp_all add: loop_cond_def)
  have i: "?i < length (urls_to_visit s)"
    using ne by simp
  show ?thesis
    using assms(2) lt i
    by (auto simp: loop_body_def pop_def Let_def split: if_splits)
qed

lemma loop_body_decreases:
  assumes "loop_cond p (observe env k s)"
    and "loop_body env k p (observe env k s) = (p', s')"
  shows "((env, Suc k, p', s'), (env, k, p, s))
         \<in> (\<lambda>(env, k, p, s). max_pages s - p) <*mlex*>
            measure (\<lambda>(env, k, p, s). length (urls_to_visit s))"
proof -
  have "length (urls_to_visit (observe env k s)) = length (urls_to_visit s)"
    by (simp add: observe_def stop_scraping_def)
  then show ?thesis
    using loop_body_measure [OF assms]
    by (auto simp: mlex_iff)
qed

text \<open>
  The \<^verbatim>\<open>while\<close> loop of \<^verbatim>\<open>start_scraping\<close>, with the local variable \<^verbatim>\<open>pages_crawled\<close>.
  It returns the counter and the object at the moment the test fails.
\<close>

function scrape_loop :: "env \<Rightarrow> nat \<Rightarrow> nat \<Rightarrow> scraper \<Rightarrow> nat \<times> scraper" where
  "scrape_loop env k pages_crawled s =
     (if loop_cond pages_crawled (observe env k s)
      then (case loop_body env k pages_crawled (observe env k s) of
              (pages_crawled', s') \<Rightarrow> scrape_loop env (Suc k) pages_crawled' s')
      else (pages_crawled, observe env k s))"
  by pat_completeness auto
termination
proof (relation "(\<lambda>(env, k, p, s). max_pages s - p) <*mlex*>
                 measure (\<lambda>(env, k, p, s). length (urls_to_visit s))", goal_cases)
  case 1
  show ?case
    by (simp add: wf_mlex)
next
  case (2 env k pages_crawled s p' s')
  then show ?case
    by (intro loop_body_decreases) simp_all
qed

text \<open>\<^verbatim>\<open>list(self.emails_found)\<close>: the elements of the set, in the order the set enumerates.\<close>

definition list_of_set :: "env \<Rightarrow> string list \<Rightarrow> string list" where
  "list_of_set env xs = sort_key (set_order env) xs"

definition start_scraping :: "env \<Rightarrow> scraper \<Rightarrow> scraper" where
  "start_scraping env s =
     (case scrape_loop env 0 0 s of
        (pages_crawled, s1) \<Rightarrow>
          (let s2 = s1\<lparr>is_scraping := False\<rparr>;
               s3 = status_callback ''Scraping finished.'' s2
           in result_callback (list_of_set env (emails_found s3)) s3))"

declare scrape_loop.simps [simp del]

subsection \<open>The class EmailScraperUI\<close>

text \<open>
  Of the window, the three widgets the methods write: the text of the status label, the
  content of the results textbox and whether the button is enabled. The worker thread of
  \<^verbatim>\<open>start_extraction\<close> is run to its end in place; \<^verbatim>\<open>check_thread\<close>, which polls it, is
  left out.
\<close>

record ui =
  status_label :: string
  results_textbox :: string
  extract_button_enabled :: bool

definition update_status :: "string \<Rightarrow> ui \<Rightarrow> ui" where
  "update_status message w = w\<lparr>status_label := message\<rparr>"

text \<open>\<^verbatim>\<open>str(n)\<close> for \<^verbatim>\<open>n = len(emails)\<close>.\<close>

fun str_nat :: "nat \<Rightarrow> string" where
  "str_nat n =
     (if n < 10 then [''0123456789'' ! n]
      else str_nat (n div 10) @ [''0123456789'' ! (n mod 10)])"

declare str_nat.simps [simp del]

definition newline :: char where
  "newline = CHR 0x0A"

definition textbox_delete_all :: "ui \<Rightarrow> ui" where
  "textbox_delete_all w = w\<lparr>results_textbox := []\<rparr>"

definition textbox_insert_start :: "string \<Rightarrow> ui \<Rightarrow> ui" where
  "textbox_insert_start txt w = w\<lparr>results_textbox := txt @ results_textbox w\<rparr>"

definition textbox_insert_end :: "string \<Rightarrow> ui \<Rightarrow> ui" where
  "textbox_insert_end txt w = w\<lparr>results_textbox := results_textbox w @ txt\<rparr>"

text \<open>
  \<^verbatim>\<open>display_results\<close>; \<^verbatim>\<open>sorted(emails)\<close> is \<open>sort\<close> in the lexicographic order of the
  character codes.
\<close>

definition display_results :: "string list \<Rightarrow> ui \<Rightarrow> ui" where
  "display_results emails w =
     (let w1 = textbox_delete_all w;
          w2 = (if emails \<noteq> []
                then foldl (\<lambda>w email. textbox_insert_end (email @ [newline]) w)
                       (textbox_insert_start
                          (''Found '' @ str_nat (length emails) @ '' unique email(s):''
                             @ [newline, newline]) w1)
                       (sort emails)
                else textbox_insert_start ''No emails found.'' w1)
      in w2\<lparr>extract_button_enabled := True\<rparr>)"

text \<open>The two callbacks that \<^verbatim>\<open>run_scraper\<close> hands to the scraper, applied to its trace.\<close>

fun deliver :: "ui \<Rightarrow> event \<Rightarrow> ui" where
  "deliver w (Status message) = update_status message w"
| "deliver w (Result emails) = display_results emails w"
| "deliver w e = w"

text \<open>
  \<^verbatim>\<open>run_scraper\<close>: when \<^verbatim>\<open>__init__\<close> raises, the thread ends and the window stays as it is.
\<close>

definition run_scraper :: "env \<Rightarrow> string \<Rightarrow> ui \<Rightarrow> ui" where
  "run_scraper env url w =
     (case EmailScraper_init env url of
        Inl e \<Rightarrow> w
      | Inr scraper \<Rightarrow> foldl deliver w (trace (start_scraping env scraper)))"






subsection \<open>Reading a trace\<close>

text \<open>The URLs requested, the status lines and the results delivered, in order.\<close>

fun fetched :: "event list \<Rightarrow> string list" where
  "fetched [] = []"
| "fetched (Get u # es) = u # fetched es"
| "fetched (e # es) = fetched es"

fun statuses :: "event list \<Rightarrow> string list" where
  "statuses [] = []"
| "statuses (Status m # es) = m # statuses es"
| "statuses (e # es) = statuses es"

fun results :: "event list \<Rightarrow> string list list" where
  "results [] = []"
| "results (Result r # es) = r # results es"
| "results (e # es) = results es"

text \<open>The status line of the handler that catches \<open>e\<close> in \<^verbatim>\<open>_crawl_page\<close>.\<close>

definition error_line :: "string \<Rightarrow> exn \<Rightarrow> string" where
  "error_line url e =
     (case e of
        RequestException m \<Rightarrow> ''Error visiting '' @ url @ '': '' @ m
      | OtherException m \<Rightarrow> ''An unexpected error occurred: '' @ m)"

subsection \<open>The states of the loop\<close>

text \<open>
  \<open>reach env s0 k p s\<close>: started on the object \<open>s0\<close>, the loop of \<^verbatim>\<open>start_scraping\<close>
  is about to test its condition for the \<open>k\<close>-th time, with \<^verbatim>\<open>pages_crawled = p\<close> and
  the object \<open>s\<close>.
\<close>

inductive reach :: "env \<Rightarrow> scraper \<Rightarrow> nat \<Rightarrow> nat \<Rightarrow> scraper \<Rightarrow> bool"
  for env :: env and s0 :: scraper where
  reach_start: "reach env s0 0 0 s0"
| reach_step: "reach env s0 k p s \<Longrightarrow> loop_cond p (observe env k s) \<Longrightarrow>
     loop_body env k p (observe env k s) = (p', s') \<Longrightarrow> reach env s0 (Suc k) p' s'"

text \<open>
  What holds each time the loop tests its condition with \<^verbatim>\<open>pages_crawled = p\<close>, in a run
  that starts from a new object.
\<close>

definition crawl_inv :: "nat \<Rightarrow> scraper \<Rightarrow> bool" where
  "crawl_inv p s \<longleftrightarrow>
     distinct (urls_to_visit s) \<and> distinct (visited_urls s) \<and>
     set (urls_to_visit s) \<inter> set (visited_urls s) = {} \<and>
     fetched (trace s) = rev (visited_urls s) \<and>
     length (visited_urls s) = p \<and> p \<le> max_pages s \<and>
     results (trace s) = []"

subsection \<open>A small web, for concrete runs\<close>

text \<open>
  \<open>demo_urlparse\<close> returns what \<^verbatim>\<open>urllib.parse.urlparse\<close> returns for a string of the form
  \<^verbatim>\<open>scheme://netloc/path\<close> with a lower-case scheme, or for a relative reference without a
  colon; like the library, it raises \<^verbatim>\<open>ValueError\<close> on a netloc with an unmatched bracket.
\<close>

definition demo_urlparse :: "string \<Rightarrow> exn + parse_result" where
  "demo_urlparse url =
     (let sch = (if CHR '':'' \<in> set url then takeWhile (\<lambda>c. c \<noteq> CHR '':'') url else []);
          rest = (if sch = [] then url else drop (length sch + 1) url);
          loc = (if take 2 rest = ''//''
                 then takeWhile (\<lambda>c. c \<notin> set ''/?#'') (drop 2 rest) else [])
      in if (CHR ''['' \<in> set loc) \<noteq> (CHR '']'' \<in> set loc)
         then Inl (OtherException ''Invalid IPv6 URL'')
         else Inr \<lparr>scheme = sch, netloc = loc\<rparr>)"

text \<open>
  \<open>demo_urljoin\<close> returns what \<^verbatim>\<open>urllib.parse.urljoin\<close> returns when the reference is an
  absolute URL, an absolute path or a relative path without dot segments, query or fragment.
\<close>

definition demo_urljoin :: "string \<Rightarrow> string \<Rightarrow> exn + string" where
  "demo_urljoin base url =
     (if url = [] then Inr base
      else case demo_urlparse base of
        Inl e \<Rightarrow> Inl e
      | Inr b \<Rightarrow>
          (case demo_urlparse url of
             Inl e \<Rightarrow> Inl e
           | Inr u \<Rightarrow>
               (let root = scheme b @ ''://'' @ netloc b;
                    path = drop (length root) base;
                    dir = (if CHR ''/'' \<in> set path
                           then rev (dropWhile (\<lambda>c. c \<noteq> CHR ''/'') (rev path)) else ''/'')
                in if scheme u \<noteq> [] then Inr url
                   else if take 2 url = ''//'' then Inr (scheme b @ '':'' @ url)
                   else if hd url = CHR ''/'' then Inr (root @ url)
                   else Inr (root @ dir @ url))))"

text \<open>
  The documents of the demo web are text with anchors written \<^verbatim>\<open><a href=target>\<close>; on
  these \<open>demo_soup\<close> returns the text outside the tags and the targets of the anchors.
\<close>

fun tag_free :: "bool \<Rightarrow> string \<Rightarrow> string" where
  "tag_free in_tag [] = []"
| "tag_free in_tag (c # cs) =
     (if c = CHR ''<'' then tag_free True cs
      else if c = CHR ''>'' then tag_free False cs
      else if in_tag then tag_free in_tag cs
      else c # tag_free in_tag cs)"

fun anchors :: "string \<Rightarrow> string list" where
  "anchors [] = []"
| "anchors (c # cs) =
     (if take 8 (c # cs) = ''<a href=''
      then takeWhile (\<lambda>c. c \<noteq> CHR ''>'') (drop 8 (c # cs)) # anchors cs
      else anchors cs)"

definition demo_soup :: "string \<Rightarrow> exn + soup" where
  "demo_soup html = Inr \<lparr>get_text = tag_free False html, find_all_a_href = anchors html\<rparr>"

text \<open>
  On a text whose words are separated by single spaces and whose addresses are whole
  words, the words containing \<^verbatim>\<open>@\<close> are what \<^verbatim>\<open>re.findall\<close> returns.
\<close>

fun split_words :: "string \<Rightarrow> string \<Rightarrow> string list" where
  "split_words w [] = (if w = [] then [] else [w])"
| "split_words w (c # cs) =
     (if c = CHR '' '' then (if w = [] then [] else [w]) @ split_words [] cs
      else split_words (w @ [c]) cs)"

definition demo_findall :: "string \<Rightarrow> string list" where
  "demo_findall txt = filter (\<lambda>w. CHR ''@'' \<in> set w) (split_words [] txt)"

definition demo_get :: "nat \<Rightarrow> string \<Rightarrow> exn + response" where
  "demo_get k url =
     (if url = ''https://example.com''
      then Inr \<lparr>status_code = 200, raise_for_status = None, response_text =
        ''Contact a@b.com or A@B.COM or a@b.com <a href=/a/b.html>team</a> <a href=http://other-domain.com/x>other</a> <a href=https://example.com:8080/x>port</a> <a href=/missing>old</a>''\<rparr>
      else if url = ''https://example.com/a/b.html''
      then Inr \<lparr>status_code = 200, raise_for_status = None, response_text =
        ''Team: c@b.com and a@b.com <a href=c.html>next</a>''\<rparr>
      else if url = ''https://example.com/missing''
      then Inr \<lparr>status_code = 404, raise_for_status = Some (RequestException
        ''404 Client Error: Not Found for url: https://example.com/missing''), response_text = []\<rparr>
      else Inl (RequestException ''connection refused''))"

definition demo_env :: env where
  "demo_env = \<lparr>urlparse = demo_urlparse, urljoin = demo_urljoin, requests_get = demo_get,
     BeautifulSoup = demo_soup, re_findall_email = demo_findall,
     pop_choice = (\<lambda>k. 0), set_order = length, stop_requested = (\<lambda>k. False)\<rparr>"

definition demo_scraper :: scraper where
  "demo_scraper =
     \<lparr>base_url = ''https://example.com'', domain = ''example.com'', emails_found = [],
      visited_urls = [], urls_to_visit = [''https://example.com''], is_scraping = True,
      max_pages = 50, trace = []\<rparr>"

text \<open>The status lines that start with \<^verbatim>\<open>Found Email: \<close>.\<close>

definition found_line :: "string \<Rightarrow> string" where
  "found_line email = ''Found Email: '' @ email"

definition is_found_line :: "string \<Rightarrow> bool" where
  "is_found_line m \<longleftrightarrow> take 13 m = ''Found Email: ''"

text \<open>
  Each address of \<open>emails_found\<close> is there once, and the \<^verbatim>\<open>Found Email\<close> lines of the trace
  are those of the addresses, in the order in which they were added.
\<close>

definition emails_inv :: "scraper \<Rightarrow> bool" where
  "emails_inv s \<longleftrightarrow>
     distinct (emails_found s) \<and>
     filter is_found_line (statuses (trace s))
       = map found_line (rev (emails_found s))"

text \<open>A network on which every request fails.\<close>

definition dead_env :: env where
  "dead_env = demo_env\<lparr>requests_get := (\<lambda>k url. Inl (RequestException ''connection refused''))\<rparr>"

text \<open>The object of the demo run when it is about to fetch the missing page.\<close>

definition demo_scraper_1 :: scraper where
  "demo_scraper_1 = snd (loop_body demo_env 0 0 demo_scraper)"

text \<open>A network on which the page fetched in iteration \<open>k\<close> links to the new page \<^verbatim>\<open>/pk\<close>.\<close>

definition regen_env :: env where
  "regen_env = demo_env\<lparr>requests_get := (\<lambda>k url.
     Inr \<lparr>status_code = 200, raise_for_status = None,
          response_text = ''<a href=/p'' @ str_nat k @ ''>next</a>''\<rparr>)\<rparr>"

text \<open>
  What \<^verbatim>\<open>Response.raise_for_status\<close> of the \<^verbatim>\<open>requests\<close> library does with a status code:
  it raises an \<^verbatim>\<open>HTTPError\<close>, which is a \<^verbatim>\<open>RequestException\<close>, for a code from 400 to 599,
  and nothing for any other.
\<close>

definition http_error_for :: "nat \<Rightarrow> string \<Rightarrow> string \<Rightarrow> exn option" where
  "http_error_for code reason url =
     (if 400 \<le> code \<and> code < 500
      then Some (RequestException
             (str_nat code @ '' Client Error: '' @ reason @ '' for url: '' @ url))
      else if 500 \<le> code \<and> code < 600
      then Some (RequestException
             (str_nat code @ '' Server Error: '' @ reason @ '' for url: '' @ url))
      else None)"

text \<open>
  A network on which every request is answered \<^verbatim>\<open>300 Multiple Choices\<close>, without a
  \<^verbatim>\<open>Location\<close> header, so that \<^verbatim>\<open>requests.get\<close> returns that response.
\<close>

definition choices_env :: env where
  "choices_env = demo_env\<lparr>requests_get := (\<lambda>k url.
     Inr \<lparr>status_code = 300,
          raise_for_status = http_error_for 300 ''Multiple Choices'' url,
          response_text = ''Write to x@y.com <a href=/n>next</a>''\<rparr>)\<rparr>"

text \<open>A network whose pages hold three links, the second one with an unmatched bracket.\<close>

definition bad_href_env :: env where
  "bad_href_env = demo_env\<lparr>requests_get := (\<lambda>k url.
     Inr \<lparr>status_code = 200, raise_for_status = None,
          response_text =
            ''<a href=/ok1>one</a> <a href=https://[example.com/x>bad</a> <a href=/ok2>two</a>''\<rparr>)\<rparr>"



section \<open>Properties\<close>

lemma fetched_append [simp]: "fetched (xs @ ys) = fetched xs @ fetched ys"
  by (induction xs rule: fetched.induct) simp_all

lemma statuses_append [simp]: "statuses (xs @ ys) = statuses xs @ statuses ys"
  by (induction xs rule: statuses.induct) simp_all

lemma results_append [simp]: "results (xs @ ys) = results xs @ results ys"
  by (induction xs rule: results.induct) simp_all

lemma fetched_map_Status [simp]: "fetched (map (\<lambda>a. Status (f a)) xs) = []"
  by (induction xs) simp_all

lemma results_map_Status [simp]: "results (map (\<lambda>a. Status (f a)) xs) = []"
  by (induction xs) simp_all

lemma statuses_map_Status [simp]: "statuses (map (\<lambda>a. Status (f a)) xs) = map f xs"
  by (induction xs) simp_all

subsection \<open>What each method changes\<close>

lemma emit_frame [simp]:
  "base_url (emit e s) = base_url s"
  "domain (emit e s) = domain s"
  "emails_found (emit e s) = emails_found s"
  "visited_urls (emit e s) = visited_urls s"
  "urls_to_visit (emit e s) = urls_to_visit s"
  "is_scraping (emit e s) = is_scraping s"
  "trace (emit e s) = trace s @ [e]"
  by (simp_all add: emit_def)

lemma status_callback_frame [simp]:
  "base_url (status_callback m s) = base_url s"
  "domain (status_callback m s) = domain s"
  "emails_found (status_callback m s) = emails_found s"
  "visited_urls (status_callback m s) = visited_urls s"
  "urls_to_visit (status_callback m s) = urls_to_visit s"
  "is_scraping (status_callback m s) = is_scraping s"
  "trace (status_callback m s) = trace s @ [Status m]"
  by (simp_all add: status_callback_def)

lemma add_emails_frame [simp]:
  "base_url (add_emails s es) = base_url s"
  "domain (add_emails s es) = domain s"
  "visited_urls (add_emails s es) = visited_urls s"
  "urls_to_visit (add_emails s es) = urls_to_visit s"
  "is_scraping (add_emails s es) = is_scraping s"
  by (induction es arbitrary: s; simp)+

lemma remdups_snoc: "remdups (ys @ [a]) = filter (\<lambda>x. x \<noteq> a) (remdups ys) @ [a]"
  by (induction ys) auto

lemma first_occurrences_Cons:
  "rev (remdups (rev (a # xs))) = a # rev (remdups (rev (filter (\<lambda>x. x \<noteq> a) xs)))"
  by (simp add: remdups_snoc remdups_filter rev_filter)

lemma add_emails_effect:
  "emails_found (add_emails s es) =
     remdups (rev (filter (\<lambda>a. a \<notin> set (emails_found s)) es)) @ emails_found s \<and>
   trace (add_emails s es) =
     trace s @ map (\<lambda>a. Status (''Found Email: '' @ a))
                 (rev (remdups (rev (filter (\<lambda>a. a \<notin> set (emails_found s)) es))))"
proof (induction es arbitrary: s)
  case Nil
  show ?case by simp
next
  case (Cons a es)
  show ?case
  proof (cases "a \<in> set (emails_found s)")
    case True
    then show ?thesis using Cons [of s] by simp
  next
    case False
    define s1 where
      "s1 = status_callback (''Found Email: '' @ a) (s\<lparr>emails_found := List.insert a (emails_found s)\<rparr>)"
    have e: "emails_found s1 = a # emails_found s"
      and t: "trace s1 = trace s @ [Status (''Found Email: '' @ a)]"
      using False by (simp_all add: s1_def)
    have f: "filter (\<lambda>x. x \<notin> set (emails_found s1)) es
             = filter (\<lambda>x. x \<noteq> a) (filter (\<lambda>x. x \<notin> set (emails_found s)) es)"
      unfolding e by (auto intro: filter_cong)
    have step: "add_emails s (a # es) = add_emails s1 es"
      using False by (simp add: s1_def)
    have r: "remdups (rev (filter (\<lambda>x. x \<notin> set (emails_found s)) (a # es)))
             = remdups (rev (filter (\<lambda>x. x \<noteq> a) (filter (\<lambda>x. x \<notin> set (emails_found s)) es))) @ [a]"
      using False by (simp add: remdups_snoc remdups_filter rev_filter)
    show ?thesis
      unfolding step r
      using Cons [of s1]
      unfolding f e t
      by (simp add: conj_commute)
  qed
qed

lemma add_emails_set: "set (emails_found (add_emails s es)) = set (emails_found s) \<union> set es"
  using add_emails_effect [of s es] by auto

lemma add_emails_distinct:
  "distinct (emails_found s) \<Longrightarrow> distinct (emails_found (add_emails s es))"
  using add_emails_effect [of s es] by auto

lemma is_valid_url_cong:
  "domain s = domain s' \<Longrightarrow> visited_urls s = visited_urls s' \<Longrightarrow>
   is_valid_url env s u = is_valid_url env s' u"
  by (simp add: is_valid_url_def split: sum.splits)

lemma add_links_frame [simp]:
  "base_url (fst (add_links env s ls)) = base_url s"
  "domain (fst (add_links env s ls)) = domain s"
  "emails_found (fst (add_links env s ls)) = emails_found s"
  "visited_urls (fst (add_links env s ls)) = visited_urls s"
  "is_scraping (fst (add_links env s ls)) = is_scraping s"
  "trace (fst (add_links env s ls)) = trace s"
  by (induction ls arbitrary: s; simp split: sum.splits)+

lemma add_links_mono:
  "set (urls_to_visit s) \<subseteq> set (urls_to_visit (fst (add_links env s ls)))"
proof (induction ls arbitrary: s)
  case Nil
  show ?case by simp
next
  case (Cons href ls)
  show ?case
  proof (cases "urljoin env (base_url s) href")
    case (Inl e)
    then show ?thesis by simp
  next
    case (Inr u)
    define s1 where "s1 = (if is_valid_url env s u
       then s\<lparr>urls_to_visit := List.insert u (urls_to_visit s)\<rparr> else s)"
    have "set (urls_to_visit s) \<subseteq> set (urls_to_visit s1)"
      by (auto simp: s1_def)
    also have "\<dots> \<subseteq> set (urls_to_visit (fst (add_links env s1 ls)))"
      by (rule Cons)
    finally show ?thesis
      by (simp add: Inr s1_def)
  qed
qed

lemma add_links_distinct:
  "distinct (urls_to_visit s) \<Longrightarrow> distinct (urls_to_visit (fst (add_links env s ls)))"
proof (induction ls arbitrary: s)
  case Nil
  then show ?case by simp
next
  case (Cons href ls)
  show ?case
  proof (cases "urljoin env (base_url s) href")
    case (Inl e)
    then show ?thesis using Cons.prems by simp
  next
    case (Inr u)
    define s1 where "s1 = (if is_valid_url env s u
       then s\<lparr>urls_to_visit := List.insert u (urls_to_visit s)\<rparr> else s)"
    have "distinct (urls_to_visit s1)"
      using Cons.prems by (simp add: s1_def)
    then have "distinct (urls_to_visit (fst (add_links env s1 ls)))"
      by (rule Cons.IH)
    then show ?thesis
      by (simp add: Inr s1_def)
  qed
qed

lemma add_links_new:
  assumes "u \<in> set (urls_to_visit (fst (add_links env s ls)))"
    and "u \<notin> set (urls_to_visit s)"
  shows "is_valid_url env s u \<and> (\<exists>href \<in> set ls. urljoin env (base_url s) href = Inr u)"
  using assms
proof (induction ls arbitrary: s)
  case Nil
  then show ?case by simp
next
  case (Cons href ls)
  show ?case
  proof (cases "urljoin env (base_url s) href")
    case (Inl e)
    then show ?thesis using Cons.prems by simp
  next
    case (Inr a)
    define s1 where "s1 = (if is_valid_url env s a
       then s\<lparr>urls_to_visit := List.insert a (urls_to_visit s)\<rparr> else s)"
    have fr: "domain s1 = domain s" "visited_urls s1 = visited_urls s" "base_url s1 = base_url s"
      by (simp_all add: s1_def)
    have in1: "u \<in> set (urls_to_visit (fst (add_links env s1 ls)))"
      using Cons.prems(1) by (simp add: Inr s1_def)
    show ?thesis
    proof (cases "u \<in> set (urls_to_visit s1)")
      case True
      then have "u = a \<and> is_valid_url env s a"
        using Cons.prems(2) by (auto simp: s1_def split: if_splits)
      then show ?thesis using Inr by auto
    next
      case False
      from Cons.IH [OF in1 False]
      have "is_valid_url env s1 u"
        and "\<exists>href \<in> set ls. urljoin env (base_url s1) href = Inr u"
        by simp_all
      then show ?thesis
        using is_valid_url_cong [OF fr(1) fr(2), of env u] fr(3) by auto
    qed
  qed
qed

lemma crawl_try_cases:
  obtains (failed) e where "crawl_try env k s url = (emit (Get url) s, Some e)"
  | (parsed) sp where
      "crawl_try env k s url =
         add_links env (add_emails (emit (Get url) s) (find_emails_on_page env sp))
           (find_all_a_href sp)"
proof (cases "requests_get env k url")
  case (Inl e)
  then show ?thesis using failed [of e] by (simp add: crawl_try_def)
next
  case (Inr resp)
  note resp = this
  show ?thesis
  proof (cases "raise_for_status resp")
    case (Some e)
    then show ?thesis using failed [of e] resp by (simp add: crawl_try_def)
  next
    case None
    show ?thesis
    proof (cases "BeautifulSoup env (response_text resp)")
      case (Inl e)
      then show ?thesis using failed [of e] resp None by (simp add: crawl_try_def)
    next
      case (Inr sp)
      then show ?thesis using parsed [of sp] resp None by (simp add: crawl_try_def)
    qed
  qed
qed

lemma crawl_page_eq:
  "crawl_page env k s url =
     (case crawl_try env k (status_callback (''Visiting: '' @ url) s) url of
        (s', None) \<Rightarrow> s'
      | (s', Some e) \<Rightarrow> status_callback (error_line url e) s')"
  by (simp add: crawl_page_def error_line_def split: prod.splits option.splits exn.splits)

lemma crawl_page_cases:
  obtains (failed) m e where
      "crawl_page env k s url =
         status_callback (error_line url e) (emit (Get url) (status_callback m s))"
  | (parsed) m sp where
      "crawl_page env k s url =
         fst (add_links env
           (add_emails (emit (Get url) (status_callback m s)) (find_emails_on_page env sp))
           (find_all_a_href sp))"
  | (broken) m sp e where
      "crawl_page env k s url =
         status_callback (error_line url e)
          (fst (add_links env
           (add_emails (emit (Get url) (status_callback m s)) (find_emails_on_page env sp))
           (find_all_a_href sp)))"
proof -
  define m where "m = ''Visiting: '' @ url"
  define s0 where "s0 = status_callback m s"
  have eq: "crawl_page env k s url =
     (case crawl_try env k s0 url of
        (s', None) \<Rightarrow> s'
      | (s', Some e) \<Rightarrow> status_callback (error_line url e) s')"
    by (simp add: crawl_page_eq s0_def m_def)
  show ?thesis
  proof (cases rule: crawl_try_cases [of env k s0 url])
    case (failed e)
    then show ?thesis
      using that(1) [of e m] by (simp add: eq s0_def)
  next
    case (parsed sp)
    define r where "r = add_links env (add_emails (emit (Get url) s0) (find_emails_on_page env sp))
           (find_all_a_href sp)"
    show ?thesis
    proof (cases "snd r")
      case None
      then have "crawl_page env k s url = fst r"
        using parsed unfolding eq r_def [symmetric]
        by (cases r) simp
      then show ?thesis
        using that(2) [of m sp] by (simp add: r_def s0_def)
    next
      case (Some e)
      then have "crawl_page env k s url = status_callback (error_line url e) (fst r)"
        using parsed unfolding eq r_def [symmetric]
        by (cases r) simp
      then show ?thesis
        using that(3) [of e m sp] by (simp add: r_def s0_def)
    qed
  qed
qed

lemma crawl_page_frame [simp]:
  "base_url (crawl_page env k s url) = base_url s"
  "domain (crawl_page env k s url) = domain s"
  "visited_urls (crawl_page env k s url) = visited_urls s"
  "is_scraping (crawl_page env k s url) = is_scraping s"
  by (cases rule: crawl_page_cases [of env k s url]; simp)+

lemma crawl_page_fetched [simp]:
  "fetched (trace (crawl_page env k s url)) = fetched (trace s) @ [url]"
  by (cases rule: crawl_page_cases [of env k s url]) (simp_all add: add_emails_effect)

lemma crawl_page_results [simp]:
  "results (trace (crawl_page env k s url)) = results (trace s)"
  by (cases rule: crawl_page_cases [of env k s url]) (simp_all add: add_emails_effect)

lemma crawl_page_mono:
  "set (urls_to_visit s) \<subseteq> set (urls_to_visit (crawl_page env k s url))"
proof -
  have *: "set (urls_to_visit s) \<subseteq> set (urls_to_visit (fst (add_links env (add_emails
            (emit (Get url) (status_callback m s)) es) ls)))" for es ls m
    using add_links_mono [of "add_emails (emit (Get url) (status_callback m s)) es" env ls]
    by simp
  show ?thesis
    by (cases rule: crawl_page_cases [of env k s url]) (simp_all add: *)
qed

lemma crawl_page_distinct:
  assumes "distinct (urls_to_visit s)"
  shows "distinct (urls_to_visit (crawl_page env k s url))"
proof -
  have *: "distinct (urls_to_visit (fst (add_links env (add_emails
            (emit (Get url) (status_callback m s)) es) ls)))" for es ls m
    using add_links_distinct [of "add_emails (emit (Get url) (status_callback m s)) es" env ls]
      assms by simp
  show ?thesis
    by (cases rule: crawl_page_cases [of env k s url]) (simp_all add: * assms)
qed

lemma crawl_page_new:
  assumes "u \<in> set (urls_to_visit (crawl_page env k s url))"
    and "u \<notin> set (urls_to_visit s)"
  shows "is_valid_url env s u"
proof -
  have *: "is_valid_url env s u"
    if "u \<in> set (urls_to_visit (fst (add_links env (add_emails
            (emit (Get url) (status_callback m s)) es) ls)))" for es ls m
  proof -
    let ?s = "add_emails (emit (Get url) (status_callback m s)) es"
    have "is_valid_url env ?s u"
      using add_links_new [of u env ?s ls] that assms(2) by simp
    then show ?thesis
      using is_valid_url_cong [of ?s s env u] by simp
  qed
  show ?thesis
    using assms
    by (cases rule: crawl_page_cases [of env k s url]) (auto dest: *)
qed

lemma crawl_page_emails_distinct:
  assumes "distinct (emails_found s)"
  shows "distinct (emails_found (crawl_page env k s url))"
proof -
  have *: "distinct (emails_found (add_emails (emit (Get url) (status_callback m s)) es))"
    for es m
    using add_emails_distinct [of "emit (Get url) (status_callback m s)" es] assms by simp
  show ?thesis
    by (cases rule: crawl_page_cases [of env k s url]) (simp_all add: * assms)
qed

lemma scrape_loop_reach:
  assumes "reach env s0 k p s"
  shows "\<exists>k' p' s'. reach env s0 k' p' s' \<and> \<not> loop_cond p' (observe env k' s') \<and>
           scrape_loop env k p s = (p', observe env k' s')"
  using assms
proof (induction env k p s rule: scrape_loop.induct)
  case (1 env k p s)
  show ?case
  proof (cases "loop_cond p (observe env k s)")
    case False
    then show ?thesis
      using "1.prems" by (subst scrape_loop.simps) auto
  next
    case True
    obtain p' s' where b: "loop_body env k p (observe env k s) = (p', s')"
      by (cases "loop_body env k p (observe env k s)")
    have "reach env s0 (Suc k) p' s'"
      using "1.prems" True b by (rule reach_step)
    from "1.IH" [OF True b [symmetric] this]
    show ?thesis
      using True b by (subst scrape_loop.simps) simp
  qed
qed

lemma observe_frame [simp]:
  "base_url (observe env k s) = base_url s"
  "domain (observe env k s) = domain s"
  "emails_found (observe env k s) = emails_found s"
  "visited_urls (observe env k s) = visited_urls s"
  "urls_to_visit (observe env k s) = urls_to_visit s"
  "trace (observe env k s) = trace s"
  by (simp_all add: observe_def stop_scraping_def)

lemma pop_effect:
  assumes "urls_to_visit s \<noteq> []" and "distinct (urls_to_visit s)"
  obtains u rest where "pop env k s = (u, s\<lparr>urls_to_visit := rest\<rparr>)"
    and "u \<in> set (urls_to_visit s)" and "set rest = set (urls_to_visit s) - {u}"
    and "distinct rest"
proof -
  let ?xs = "urls_to_visit s"
  let ?i = "pop_choice env k mod length ?xs"
  have i: "?i < length ?xs" using assms(1) by simp
  have xs: "?xs = take ?i ?xs @ ?xs ! ?i # drop (Suc ?i) ?xs"
    using i by (rule id_take_nth_drop)
  have d: "distinct (take ?i ?xs @ ?xs ! ?i # drop (Suc ?i) ?xs)"
    using assms(2) xs by simp
  have 1: "pop env k s = (?xs ! ?i, s\<lparr>urls_to_visit := take ?i ?xs @ drop (Suc ?i) ?xs\<rparr>)"
    by (simp add: pop_def Let_def)
  have 2: "?xs ! ?i \<in> set ?xs" using i by simp
  have "set ?xs = insert (?xs ! ?i) (set (take ?i ?xs @ drop (Suc ?i) ?xs))"
    by (subst xs) auto
  moreover have "?xs ! ?i \<notin> set (take ?i ?xs @ drop (Suc ?i) ?xs)"
    using d by auto
  ultimately have 3: "set (take ?i ?xs @ drop (Suc ?i) ?xs) = set ?xs - {?xs ! ?i}"
    by auto
  have 4: "distinct (take ?i ?xs @ drop (Suc ?i) ?xs)"
    using d by auto
  show ?thesis using that [OF 1 2 3 4] .
qed

text \<open>One iteration from a state whose frontier holds no visited URL.\<close>

lemma loop_body_fresh:
  assumes "loop_cond p s" and "distinct (urls_to_visit s)"
    and "set (urls_to_visit s) \<inter> set (visited_urls s) = {}"
  obtains u rest where "u \<in> set (urls_to_visit s)" and "u \<notin> set (visited_urls s)"
    and "set rest = set (urls_to_visit s) - {u}" and "distinct rest"
    and "loop_body env k p s =
          (p + 1, emit (Sleep 1)
             (crawl_page env k (s\<lparr>urls_to_visit := rest, visited_urls := u # visited_urls s\<rparr>) u))"
proof -
  have ne: "urls_to_visit s \<noteq> []" using assms(1) by (simp add: loop_cond_def)
  obtain u rest where p: "pop env k s = (u, s\<lparr>urls_to_visit := rest\<rparr>)"
    and u: "u \<in> set (urls_to_visit s)" and r: "set rest = set (urls_to_visit s) - {u}"
    and d: "distinct rest"
    using pop_effect [OF ne assms(2)] by blast
  have nv: "u \<notin> set (visited_urls s)" using u assms(3) by auto
  have "loop_body env k p s =
          (p + 1, emit (Sleep 1)
             (crawl_page env k (s\<lparr>urls_to_visit := rest, visited_urls := u # visited_urls s\<rparr>) u))"
    using nv by (simp add: loop_body_def p Let_def)
  then show ?thesis using that [OF u nv r d] by simp
qed

lemma crawl_inv_init:
  "EmailScraper_init env seed = Inr s0 \<Longrightarrow> crawl_inv 0 s0"
  by (auto simp: EmailScraper_init_def crawl_inv_def split: sum.splits)

lemma crawl_inv_observe [simp]: "crawl_inv p (observe env k s) = crawl_inv p s"
  by (simp add: crawl_inv_def)

lemma crawl_inv_step:
  assumes inv: "crawl_inv p s" and c: "loop_cond p s" and b: "loop_body env k p s = (p', s')"
  shows "crawl_inv p' s'"
proof -
  have d: "distinct (urls_to_visit s)"
    and dj: "set (urls_to_visit s) \<inter> set (visited_urls s) = {}"
    using inv by (simp_all add: crawl_inv_def)
  obtain u rest where u: "u \<in> set (urls_to_visit s)" and nv: "u \<notin> set (visited_urls s)"
    and r: "set rest = set (urls_to_visit s) - {u}" and dr: "distinct rest"
    and lb: "loop_body env k p s =
          (p + 1, emit (Sleep 1)
             (crawl_page env k (s\<lparr>urls_to_visit := rest, visited_urls := u # visited_urls s\<rparr>) u))"
    using loop_body_fresh [OF c d dj] by blast
  define s2 where "s2 = s\<lparr>urls_to_visit := rest, visited_urls := u # visited_urls s\<rparr>"
  define s3 where "s3 = crawl_page env k s2 u"
  have p': "p' = p + 1" and s': "s' = emit (Sleep 1) s3"
    using b lb by (simp_all add: s2_def s3_def)
  have v3: "visited_urls s3 = u # visited_urls s"
    by (simp add: s3_def s2_def)
  have d3: "distinct (urls_to_visit s3)"
    unfolding s3_def by (rule crawl_page_distinct) (simp add: s2_def dr)
  have dj3: "set (urls_to_visit s3) \<inter> set (visited_urls s3) = {}"
  proof -
    have "x \<notin> set (u # visited_urls s)" if x: "x \<in> set (urls_to_visit s3)" for x
    proof (cases "x \<in> set (urls_to_visit s2)")
      case True
      then show ?thesis using r dj by (auto simp: s2_def)
    next
      case False
      then have "is_valid_url env s2 x"
        using x crawl_page_new [of x env k s2 u] by (simp add: s3_def)
      then show ?thesis
        by (auto simp: is_valid_url_def s2_def Let_def split: sum.splits)
    qed
    then show ?thesis unfolding v3 by blast
  qed
  have f3: "fetched (trace s3) = rev (visited_urls s3)"
    using inv by (simp add: v3 s3_def s2_def crawl_inv_def)
  have r3: "results (trace s3) = []"
    using inv by (simp add: s3_def s2_def crawl_inv_def)
  have m3: "max_pages s3 = max_pages s"
    by (simp add: s3_def s2_def)
  have "p < max_pages s" using c by (simp add: loop_cond_def)
  then show ?thesis
    using inv nv d3 dj3 f3 r3 m3
    by (simp add: crawl_inv_def p' s' v3)
qed

lemma reach_crawl_inv:
  assumes "reach env s0 k p s" and "crawl_inv 0 s0"
  shows "crawl_inv p s"
  using assms
proof (induction rule: reach.induct)
  case reach_start
  then show ?case by simp
next
  case (reach_step k p s p' s')
  then have "crawl_inv p (observe env k s)" by simp
  then show ?case
    using reach_step.hyps(2,3) by (rule crawl_inv_step)
qed

lemma demo_init: "EmailScraper_init demo_env ''https://example.com'' = Inr demo_scraper"
  by (simp add: EmailScraper_init_def demo_env_def demo_urlparse_def demo_scraper_def)

lemma init_fields:
  assumes "EmailScraper_init env seed = Inr s0"
  shows "\<exists>q. urlparse env seed = Inr q \<and> domain s0 = netloc q"
    and "base_url s0 = seed" and "urls_to_visit s0 = [seed]" and "visited_urls s0 = []"
    and "emails_found s0 = []" and "trace s0 = []" and "max_pages s0 = 50"
    and "is_scraping s0"
  using assms by (auto simp: EmailScraper_init_def split: sum.splits)

lemma is_valid_url_iff:
  "is_valid_url env s url \<longleftrightarrow>
     (\<exists>parsed. urlparse env url = Inr parsed \<and> netloc parsed = domain s \<and>
        (scheme parsed = ''http'' \<or> scheme parsed = ''https'') \<and>
        url \<notin> set (visited_urls s))"
  by (cases "urlparse env url") (auto simp: is_valid_url_def Let_def)

lemma loop_body_frame:
  assumes "loop_body env k p s = (p', s')"
  shows "domain s' = domain s" and "base_url s' = base_url s" and "max_pages s' = max_pages s"
  using assms
  by (auto simp: loop_body_def pop_def Let_def split: if_splits)

lemma loop_body_frontier:
  assumes "crawl_inv p s" and "loop_cond p s" and "loop_body env k p s = (p', s')"
    and "x \<in> set (urls_to_visit s')"
  shows "x \<in> set (urls_to_visit s) \<or>
         (\<exists>parsed. urlparse env x = Inr parsed \<and> netloc parsed = domain s \<and>
            (scheme parsed = ''http'' \<or> scheme parsed = ''https''))"
proof -
  have d: "distinct (urls_to_visit s)"
    and dj: "set (urls_to_visit s) \<inter> set (visited_urls s) = {}"
    using assms(1) by (simp_all add: crawl_inv_def)
  obtain u rest where r: "set rest = set (urls_to_visit s) - {u}"
    and lb: "loop_body env k p s =
          (p + 1, emit (Sleep 1)
             (crawl_page env k (s\<lparr>urls_to_visit := rest, visited_urls := u # visited_urls s\<rparr>) u))"
    using loop_body_fresh [OF assms(2) d dj] by blast
  define s2 where "s2 = s\<lparr>urls_to_visit := rest, visited_urls := u # visited_urls s\<rparr>"
  have x: "x \<in> set (urls_to_visit (crawl_page env k s2 u))"
    using assms(3,4) lb by (auto simp: s2_def)
  show ?thesis
  proof (cases "x \<in> set (urls_to_visit s2)")
    case True
    then show ?thesis using r by (simp add: s2_def)
  next
    case False
    then have "is_valid_url env s2 x"
      using x by (rule crawl_page_new [rotated])
    then show ?thesis
      by (auto simp: is_valid_url_iff s2_def)
  qed
qed

lemma reach_scoped:
  assumes "reach env s0 k p s" and "EmailScraper_init env seed = Inr s0"
  shows "domain s = domain s0 \<and> base_url s = base_url s0 \<and> max_pages s = max_pages s0 \<and>
         (\<forall>u \<in> set (urls_to_visit s).
            \<exists>parsed. urlparse env u = Inr parsed \<and> netloc parsed = domain s0)"
  using assms
proof (induction rule: reach.induct)
  case reach_start
  then show ?case using init_fields(1,3) [of env seed s0] by auto
next
  case (reach_step k p s p' s')
  have inv: "crawl_inv p (observe env k s)"
    using reach_crawl_inv [OF reach_step.hyps(1) crawl_inv_init [OF reach_step.prems]] by simp
  have IH: "domain s = domain s0" "base_url s = base_url s0" "max_pages s = max_pages s0"
    "\<forall>u \<in> set (urls_to_visit s).
            \<exists>parsed. urlparse env u = Inr parsed \<and> netloc parsed = domain s0"
    using reach_step.IH [OF reach_step.prems] by simp_all
  have fr: "domain s' = domain s0" "base_url s' = base_url s0" "max_pages s' = max_pages s0"
    using loop_body_frame [OF reach_step.hyps(3)] IH by simp_all
  have "\<exists>parsed. urlparse env x = Inr parsed \<and> netloc parsed = domain s0"
    if "x \<in> set (urls_to_visit s')" for x
    using loop_body_frontier [OF inv reach_step.hyps(2,3) that] IH(1,4) by auto
  then show ?case using fr by simp
qed

lemma list_of_set_props:
  "set (list_of_set env xs) = set xs"
  "distinct (list_of_set env xs) = distinct xs"
  by (simp_all add: list_of_set_def)

lemma start_scraping_fields:
  "trace (start_scraping env s) =
     trace (snd (scrape_loop env 0 0 s)) @
       [Status ''Scraping finished.'',
        Result (list_of_set env (emails_found (snd (scrape_loop env 0 0 s))))]"
  "emails_found (start_scraping env s) = emails_found (snd (scrape_loop env 0 0 s))"
  "visited_urls (start_scraping env s) = visited_urls (snd (scrape_loop env 0 0 s))"
  "urls_to_visit (start_scraping env s) = urls_to_visit (snd (scrape_loop env 0 0 s))"
  "\<not> is_scraping (start_scraping env s)"
  by (cases "scrape_loop env 0 0 s";
      simp add: start_scraping_def result_callback_def Let_def)+

lemma final_state:
  assumes "EmailScraper_init env seed = Inr s0"
  obtains k p s where "reach env s0 k p s" and "\<not> loop_cond p (observe env k s)"
    and "scrape_loop env 0 0 s0 = (p, observe env k s)" and "crawl_inv p s"
proof -
  obtain k p s where r: "reach env s0 k p s" and c: "\<not> loop_cond p (observe env k s)"
    and l: "scrape_loop env 0 0 s0 = (p, observe env k s)"
    using scrape_loop_reach [OF reach_start, of env s0] by blast
  have "crawl_inv p s"
    using reach_crawl_inv [OF r crawl_inv_init [OF assms]] .
  then show ?thesis using that r c l by blast
qed

lemma demo_reach_1:
  "reach demo_env demo_scraper (Suc 0) (fst (loop_body demo_env 0 0 demo_scraper))
     (snd (loop_body demo_env 0 0 demo_scraper))"
proof -
  have o: "observe demo_env 0 demo_scraper = demo_scraper"
    by (simp add: observe_def demo_env_def)
  have c: "loop_cond 0 (observe demo_env 0 demo_scraper)"
    unfolding o by (simp add: loop_cond_def demo_scraper_def)
  have b: "loop_body demo_env 0 0 (observe demo_env 0 demo_scraper)
           = (fst (loop_body demo_env 0 0 demo_scraper), snd (loop_body demo_env 0 0 demo_scraper))"
    unfolding o by simp
  show ?thesis
    using reach_start c b by (rule reach_step)
qed

lemma is_found_line_simps [simp]:
  "is_found_line (found_line a)"
  "\<not> is_found_line (error_line u e)"
  by (simp_all add: is_found_line_def found_line_def error_line_def split: exn.splits)

lemma found_line_inj [simp]: "found_line a = found_line b \<longleftrightarrow> a = b"
  by (simp add: found_line_def)

lemma add_emails_trace:
  "trace (add_emails s es) =
     trace s @ map (\<lambda>a. Status (found_line a))
                 (rev (remdups (rev (filter (\<lambda>a. a \<notin> set (emails_found s)) es))))"
  unfolding found_line_def using add_emails_effect [of s es] by (rule conjunct2)

lemma emails_inv_cong:
  "emails_found s' = emails_found s \<Longrightarrow> trace s' = trace s \<Longrightarrow> emails_inv s' = emails_inv s"
  by (simp add: emails_inv_def)

lemma emails_inv_status:
  "\<not> is_found_line m \<Longrightarrow> emails_inv (status_callback m s) = emails_inv s"
  by (simp add: emails_inv_def)

lemma emails_inv_emit [simp]:
  "emails_inv (emit (Get u) s) = emails_inv s"
  "emails_inv (emit (Sleep n) s) = emails_inv s"
  by (simp_all add: emails_inv_def)

lemma filter_found_map:
  "filter is_found_line (map found_line xs) = map found_line xs"
  by (induction xs) simp_all

lemma emails_inv_add_emails:
  assumes "emails_inv s"
  shows "emails_inv (add_emails s es)"
proof -
  define new where "new = remdups (rev (filter (\<lambda>a. a \<notin> set (emails_found s)) es))"
  have e: "emails_found (add_emails s es) = new @ emails_found s"
    and t: "trace (add_emails s es) = trace s @ map (\<lambda>a. Status (found_line a)) (rev new)"
    using add_emails_effect [of s es] add_emails_trace [of s es] by (simp_all add: new_def)
  have d: "distinct (new @ emails_found s)"
    using assms by (auto simp: new_def emails_inv_def)
  show ?thesis
    using assms d unfolding emails_inv_def e t
    by (simp add: filter_found_map)
qed

lemma emails_inv_crawl_page:
  assumes "emails_inv s"
  shows "emails_inv (crawl_page env k s url)"
proof -
  define m where "m = ''Visiting: '' @ url"
  have nf: "\<not> is_found_line m"
    by (simp add: m_def is_found_line_def)
  define s0 where "s0 = emit (Get url) (status_callback m s)"
  have i0: "emails_inv s0"
    using assms nf by (simp add: s0_def emails_inv_status)
  have eq: "crawl_page env k s url =
     (case crawl_try env k (status_callback m s) url of
        (s', None) \<Rightarrow> s'
      | (s', Some e) \<Rightarrow> status_callback (error_line url e) s')"
    unfolding m_def by (rule crawl_page_eq)
  show ?thesis
  proof (cases rule: crawl_try_cases [of env k "status_callback m s" url])
    case (failed e)
    then show ?thesis
      unfolding eq using i0 by (simp add: s0_def [symmetric] emails_inv_status)
  next
    case (parsed sp)
    define r where "r = add_links env (add_emails s0 (find_emails_on_page env sp))
           (find_all_a_href sp)"
    have "emails_inv (add_emails s0 (find_emails_on_page env sp))"
      using i0 by (rule emails_inv_add_emails)
    then have ir: "emails_inv (fst r)"
      using emails_inv_cong [of "fst r" "add_emails s0 (find_emails_on_page env sp)"]
      by (simp add: r_def)
    have c: "crawl_try env k (status_callback m s) url = r"
      using parsed by (simp add: r_def s0_def)
    show ?thesis
      unfolding eq c using ir
      by (cases r) (auto simp: emails_inv_status split: option.splits)
  qed
qed

lemma emails_inv_loop_body:
  assumes "emails_inv s" and "loop_body env k p s = (p', s')"
  shows "emails_inv s'"
proof -
  obtain u s1 where po: "pop env k s = (u, s1)"
    by (cases "pop env k s")
  have s1: "emails_found s1 = emails_found s" "trace s1 = trace s"
    using po by (auto simp: pop_def Let_def)
  show ?thesis
  proof (cases "u \<in> set (visited_urls s1)")
    case True
    then have "s' = s1" using assms(2) po by (simp add: loop_body_def)
    then show ?thesis using assms(1) emails_inv_cong [OF s1] by simp
  next
    case False
    define s2 where "s2 = s1\<lparr>visited_urls := List.insert u (visited_urls s1)\<rparr>"
    have "emails_inv s2"
      using assms(1) emails_inv_cong [of s2 s] s1 by (simp add: s2_def)
    then have "emails_inv (crawl_page env k s2 u)"
      by (rule emails_inv_crawl_page)
    moreover have "s' = emit (Sleep 1) (crawl_page env k s2 u)"
      using assms(2) po False by (simp add: loop_body_def Let_def s2_def)
    ultimately show ?thesis by simp
  qed
qed

lemma emails_inv_observe [simp]: "emails_inv (observe env k s) = emails_inv s"
  by (simp add: emails_inv_def)

lemma reach_emails_inv:
  assumes "reach env s0 k p s" and "emails_inv s0"
  shows "emails_inv s"
  using assms
proof (induction rule: reach.induct)
  case reach_start
  then show ?case by simp
next
  case (reach_step k p s p' s')
  then have "emails_inv (observe env k s)" by simp
  then show ?case using reach_step.hyps(3) by (rule emails_inv_loop_body)
qed

lemma emails_inv_init: "EmailScraper_init env seed = Inr s0 \<Longrightarrow> emails_inv s0"
  by (auto simp: EmailScraper_init_def emails_inv_def split: sum.splits)

lemma count_list_statuses:
  "count_list tr (Status m) = count_list (statuses tr) m"
  by (induction tr rule: statuses.induct) simp_all

lemma count_list_filter_true:
  "P m \<Longrightarrow> count_list (filter P xs) m = count_list xs m"
  by (induction xs) auto

lemma count_list_distinct:
  "distinct xs \<Longrightarrow> count_list xs a = (if a \<in> set xs then 1 else 0)"
  by (induction xs) auto

lemma emails_inv_count:
  assumes "emails_inv s"
  shows "count_list (trace s) (Status (''Found Email: '' @ a))
         = (if a \<in> set (emails_found s) then 1 else 0)"
proof -
  have "count_list (trace s) (Status (found_line a))
        = count_list (filter is_found_line (statuses (trace s))) (found_line a)"
    by (simp add: count_list_statuses count_list_filter_true)
  also have "\<dots> = count_list (map found_line (rev (emails_found s))) (found_line a)"
    using assms by (simp only: emails_inv_def)
  also have "\<dots> = count_list (rev (emails_found s)) a"
    by (rule count_list_map_conv) (simp add: inj_on_def)
  also have "\<dots> = (if a \<in> set (emails_found s) then 1 else 0)"
    using assms by (simp add: emails_inv_def count_list_distinct)
  finally show ?thesis
    unfolding found_line_def .
qed

lemma final_emails_inv:
  assumes "EmailScraper_init env seed = Inr s0"
  shows "emails_inv (snd (scrape_loop env 0 0 s0))"
proof -
  obtain k p s where r: "reach env s0 k p s"
    and l: "scrape_loop env 0 0 s0 = (p, observe env k s)"
    using final_state [OF assms] by blast
  show ?thesis
    using reach_emails_inv [OF r emails_inv_init [OF assms]] by (simp add: l)
qed

lemma dead_init: "EmailScraper_init dead_env ''https://example.com'' = Inr demo_scraper"
  by (simp add: EmailScraper_init_def dead_env_def demo_env_def demo_urlparse_def demo_scraper_def)

lemma crawl_page_request_failed:
  assumes "requests_get env k u = Inl (RequestException msg) \<or>
           (\<exists>resp. requests_get env k u = Inr resp \<and>
              raise_for_status resp = Some (RequestException msg))"
  shows "crawl_page env k s u =
           s\<lparr>trace := trace s @ [Status (''Visiting: '' @ u), Get u,
                                  Status (''Error visiting '' @ u @ '': '' @ msg)]\<rparr>"
proof -
  define m where "m = ''Visiting: '' @ u"
  define err where "err = ''Error visiting '' @ u @ '': '' @ msg"
  have t: "crawl_try env k (status_callback m s) u
           = (emit (Get u) (status_callback m s), Some (RequestException msg))"
    using assms by (auto simp: crawl_try_def)
  have "crawl_page env k s u = status_callback err (emit (Get u) (status_callback m s))"
    unfolding crawl_page_def m_def [symmetric] t err_def by simp
  also have "\<dots> = s\<lparr>trace := trace s @ [Status m, Get u, Status err]\<rparr>"
    by (simp add: status_callback_def emit_def)
  finally show ?thesis
    unfolding m_def err_def .
qed

lemma start_scraping_completion:
  assumes "EmailScraper_init env seed = Inr s0"
  shows "\<exists>evs emails.
           trace (start_scraping env s0)
             = evs @ [Status ''Scraping finished.'', Result emails] \<and>
           results evs = [] \<and>
           results (trace (start_scraping env s0)) = [emails] \<and>
           distinct emails \<and>
           set emails = set (emails_found (start_scraping env s0)) \<and>
           \<not> is_scraping (start_scraping env s0)"
proof -
  obtain k p s where l: "scrape_loop env 0 0 s0 = (p, observe env k s)"
    and inv: "crawl_inv p s"
    using final_state [OF assms] by blast
  define evs where "evs = trace (snd (scrape_loop env 0 0 s0))"
  define emails where
    "emails = list_of_set env (emails_found (snd (scrape_loop env 0 0 s0)))"
  have 1: "trace (start_scraping env s0) = evs @ [Status ''Scraping finished.'', Result emails]"
    by (simp add: start_scraping_fields(1) evs_def emails_def)
  have 2: "results evs = []"
    using inv by (simp add: evs_def l crawl_inv_def)
  have 3: "results (trace (start_scraping env s0)) = [emails]"
    unfolding 1 using 2 by simp
  have "distinct (emails_found (snd (scrape_loop env 0 0 s0)))"
    using final_emails_inv [OF assms] by (simp add: emails_inv_def)
  then have 4: "distinct emails"
    by (simp add: emails_def list_of_set_props)
  have 5: "set emails = set (emails_found (start_scraping env s0))"
    by (simp add: emails_def list_of_set_props start_scraping_fields(2))
  show ?thesis
    using 1 2 3 4 5 start_scraping_fields(5) [of env s0] by blast
qed

lemma foldl_insert_end:
  "results_textbox (foldl (\<lambda>w email. textbox_insert_end (email @ [newline]) w) w es)
   = results_textbox w @ concat (map (\<lambda>email. email @ [newline]) es)"
  by (induction es arbitrary: w) (simp_all add: textbox_insert_end_def)

lemma display_results_textbox:
  "results_textbox (display_results emails w) =
     (if emails \<noteq> []
      then ''Found '' @ str_nat (length emails) @ '' unique email(s):'' @ [newline, newline]
             @ concat (map (\<lambda>email. email @ [newline]) (sort emails))
      else ''No emails found.'')"
  by (simp add: display_results_def Let_def foldl_insert_end textbox_insert_start_def
      textbox_delete_all_def)

lemma foldl_deliver_append:
  "foldl deliver w (evs @ [Status m, Result emails])
   = display_results emails (update_status m (foldl deliver w evs))"
  by simp



lemma regen_init: "EmailScraper_init regen_env ''https://example.com'' = Inr demo_scraper"
  by (simp add: EmailScraper_init_def regen_env_def demo_env_def demo_urlparse_def demo_scraper_def)

lemma loop_body_running:
  assumes "loop_body env k p s = (p', s')"
  shows "is_scraping s' = is_scraping s"
  using assms
  by (auto simp: loop_body_def pop_def Let_def split: if_splits)

lemma reach_running:
  assumes "reach env s0 k p s" and "is_scraping s0" and "\<forall>j. \<not> stop_requested env j"
  shows "is_scraping s"
  using assms
proof (induction rule: reach.induct)
  case reach_start
  then show ?case by simp
next
  case (reach_step k p s p' s')
  have "observe env k s = s"
    using reach_step.prems(2) by (simp add: observe_def)
  then show ?case
    using reach_step loop_body_running [OF reach_step.hyps(3)] by simp
qed




section \<open>The claims\<close>

text \<open>
  C1, on the demo web: the page \<^verbatim>\<open>https://example.com/a/b.html\<close> holds the link
  \<^verbatim>\<open>c.html\<close>. \<^verbatim>\<open>_crawl_page\<close> joins it to \<open>base_url\<close>, the seed, and puts
  \<^verbatim>\<open>https://example.com/c.html\<close> into the frontier; joined to the URL of the page it would
  be \<^verbatim>\<open>https://example.com/a/c.html\<close>.
\<close>

theorem link_resolved_against_seed:
  "find_all_a_href (projr (BeautifulSoup demo_env (response_text (projr
      (requests_get demo_env 2 ''https://example.com/a/b.html''))))) = [''c.html''] \<and>
   urljoin demo_env ''https://example.com/a/b.html'' ''c.html''
     = Inr ''https://example.com/a/c.html'' \<and>
   urljoin demo_env ''https://example.com'' ''c.html'' = Inr ''https://example.com/c.html'' \<and>
   urls_to_visit (crawl_page demo_env 2
       (demo_scraper\<lparr>urls_to_visit := [],
          visited_urls := [''https://example.com/a/b.html'', ''https://example.com'']\<rparr>)
       ''https://example.com/a/b.html'')
     = [''https://example.com/c.html''] \<and>
   ''https://example.com/c.html'' \<in> set (fetched (trace (start_scraping demo_env demo_scraper))) \<and>
   ''https://example.com/a/c.html'' \<notin> set (fetched (trace (start_scraping demo_env demo_scraper)))"
  by code_simp

text \<open>
  C2, on a page of three links whose second one \<^verbatim>\<open>urlparse\<close> cannot parse:
  \<^verbatim>\<open>_is_valid_url\<close> alone answers \<open>False\<close> for it, but \<^verbatim>\<open>urljoin\<close>, called before it and
  outside its \<^verbatim>\<open>try\<close>, raises; \<^verbatim>\<open>_crawl_page\<close> reports
  \<^verbatim>\<open>An unexpected error occurred\<close> and leaves the link loop, so the third link, which is
  admissible, never reaches the frontier.
\<close>

theorem unparsable_href_raises:
  "find_all_a_href (projr (BeautifulSoup bad_href_env (response_text (projr
      (requests_get bad_href_env 0 ''https://example.com'')))))
     = [''/ok1'', ''https://[example.com/x'', ''/ok2''] \<and>
   urlparse bad_href_env ''https://[example.com/x'' = Inl (OtherException ''Invalid IPv6 URL'') \<and>
   \<not> is_valid_url bad_href_env demo_scraper ''https://[example.com/x'' \<and>
   urljoin bad_href_env ''https://example.com'' ''https://[example.com/x''
     = Inl (OtherException ''Invalid IPv6 URL'') \<and>
   add_links bad_href_env demo_scraper [''/ok1'', ''https://[example.com/x'', ''/ok2'']
     = (demo_scraper\<lparr>urls_to_visit := [''https://example.com/ok1'', ''https://example.com'']\<rparr>,
        Some (OtherException ''Invalid IPv6 URL'')) \<and>
   urls_to_visit (fst (add_links bad_href_env demo_scraper [''/ok1'', ''/ok2'']))
     = [''https://example.com/ok2'', ''https://example.com/ok1'', ''https://example.com''] \<and>
   trace (snd (loop_body bad_href_env 0 0 demo_scraper))
     = [Status ''Visiting: https://example.com'', Get ''https://example.com'',
        Status ''An unexpected error occurred: Invalid IPv6 URL'', Sleep 1] \<and>
   urls_to_visit (snd (loop_body bad_href_env 0 0 demo_scraper)) = [''https://example.com/ok1''] \<and>
   ''https://example.com/ok2'' \<notin> set (fetched (trace (start_scraping bad_href_env demo_scraper)))"
  by code_simp

text \<open>
  C3: in every state of the loop no URL is both in \<open>urls_to_visit\<close> and in
  \<open>visited_urls\<close>, and \<^verbatim>\<open>_is_valid_url\<close> refuses every visited URL; an iteration takes a URL
  that is not yet visited, and runs \<^verbatim>\<open>_crawl_page\<close> (which calls \<^verbatim>\<open>requests.get\<close>) on an
  object whose \<open>visited_urls\<close> already holds it; the URLs requested so far are the visited
  ones, each once, and in the whole run no URL is requested twice.
\<close>

theorem frontier_and_visited_disjoint:
  assumes "EmailScraper_init env seed = Inr s0" and "reach env s0 k p s"
  shows "set (urls_to_visit s) \<inter> set (visited_urls s) = {} \<and>
         (\<forall>u \<in> set (visited_urls s). \<not> is_valid_url env s u) \<and>
         (loop_cond p (observe env k s) \<longrightarrow>
            (\<exists>u rest. u \<in> set (urls_to_visit s) \<and> u \<notin> set (visited_urls s) \<and>
               set rest = set (urls_to_visit s) - {u} \<and>
               loop_body env k p (observe env k s) =
                 (p + 1, emit (Sleep 1)
                    (crawl_page env k
                       ((observe env k s)\<lparr>urls_to_visit := rest,
                                           visited_urls := u # visited_urls s\<rparr>) u)))) \<and>
         fetched (trace s) = rev (visited_urls s) \<and>
         distinct (fetched (trace s)) \<and>
         distinct (fetched (trace (start_scraping env s0)))"
proof -
  have inv: "crawl_inv p s"
    using reach_crawl_inv [OF assms(2) crawl_inv_init [OF assms(1)]] .
  have 1: "set (urls_to_visit s) \<inter> set (visited_urls s) = {}"
    and 4: "fetched (trace s) = rev (visited_urls s)"
    and 5: "distinct (fetched (trace s))"
    using inv by (simp_all add: crawl_inv_def)
  have 2: "\<forall>u \<in> set (visited_urls s). \<not> is_valid_url env s u"
    by (simp add: is_valid_url_iff)
  have 3: "\<exists>u rest. u \<in> set (urls_to_visit s) \<and> u \<notin> set (visited_urls s) \<and>
               set rest = set (urls_to_visit s) - {u} \<and>
               loop_body env k p (observe env k s) =
                 (p + 1, emit (Sleep 1)
                    (crawl_page env k
                       ((observe env k s)\<lparr>urls_to_visit := rest,
                                           visited_urls := u # visited_urls s\<rparr>) u))"
    if c: "loop_cond p (observe env k s)"
  proof -
    have d: "distinct (urls_to_visit (observe env k s))"
      and dj: "set (urls_to_visit (observe env k s)) \<inter> set (visited_urls (observe env k s)) = {}"
      using inv by (simp_all add: crawl_inv_def)
    obtain u rest where "u \<in> set (urls_to_visit (observe env k s))"
      and "u \<notin> set (visited_urls (observe env k s))"
      and "set rest = set (urls_to_visit (observe env k s)) - {u}"
      and "loop_body env k p (observe env k s) =
          (p + 1, emit (Sleep 1)
             (crawl_page env k ((observe env k s)\<lparr>urls_to_visit := rest,
                 visited_urls := u # visited_urls (observe env k s)\<rparr>) u))"
      using loop_body_fresh [OF c d dj] by blast
    then show ?thesis by auto
  qed
  obtain kf pf sf where rf: "crawl_inv pf sf"
    and l: "scrape_loop env 0 0 s0 = (pf, observe env kf sf)"
    using final_state [OF assms(1)] by blast
  have 6: "distinct (fetched (trace (start_scraping env s0)))"
    using rf by (simp add: start_scraping_fields(1) l crawl_inv_def)
  show ?thesis
    using 1 2 3 4 5 6 by blast
qed

theorem frontier_and_visited_disjoint_witness:
  "set (urls_to_visit (snd (loop_body demo_env 0 0 demo_scraper)))
     \<inter> set (visited_urls (snd (loop_body demo_env 0 0 demo_scraper))) = {} \<and>
   visited_urls (snd (loop_body demo_env 0 0 demo_scraper)) = [''https://example.com''] \<and>
   fetched (trace (snd (loop_body demo_env 0 0 demo_scraper))) = [''https://example.com''] \<and>
   urls_to_visit (snd (loop_body demo_env 0 0 demo_scraper))
     = [''https://example.com/missing'', ''https://example.com/a/b.html''] \<and>
   distinct (fetched (trace (start_scraping demo_env demo_scraper)))"
proof -
  have v: "visited_urls (snd (loop_body demo_env 0 0 demo_scraper)) = [''https://example.com'']"
    by code_simp
  have u: "urls_to_visit (snd (loop_body demo_env 0 0 demo_scraper))
     = [''https://example.com/missing'', ''https://example.com/a/b.html'']"
    by code_simp
  show ?thesis
    using frontier_and_visited_disjoint [OF demo_init demo_reach_1] v u by simp
qed

text \<open>
  C4: a run requests at most 50 pages; and when no cancellation is requested and the
  frontier is not empty at the end, it has requested exactly 50.
\<close>

theorem page_budget:
  assumes "EmailScraper_init env seed = Inr s0"
  shows "length (fetched (trace (start_scraping env s0))) \<le> 50 \<and>
         length (visited_urls (start_scraping env s0)) \<le> 50 \<and>
         ((\<forall>j. \<not> stop_requested env j) \<and> urls_to_visit (start_scraping env s0) \<noteq> [] \<longrightarrow>
            length (fetched (trace (start_scraping env s0))) = 50 \<and>
            length (visited_urls (start_scraping env s0)) = 50)"
proof -
  obtain k p s where r: "reach env s0 k p s" and c: "\<not> loop_cond p (observe env k s)"
    and l: "scrape_loop env 0 0 s0 = (p, observe env k s)" and inv: "crawl_inv p s"
    using final_state [OF assms] by blast
  have m: "max_pages s = 50"
    using reach_scoped [OF r assms] init_fields(7) [OF assms] by simp
  have f: "fetched (trace (start_scraping env s0)) = rev (visited_urls s)"
    and v: "visited_urls (start_scraping env s0) = visited_urls s"
    and u: "urls_to_visit (start_scraping env s0) = urls_to_visit s"
    using inv by (simp_all add: start_scraping_fields l crawl_inv_def)
  have len: "length (visited_urls s) = p" and le: "p \<le> 50"
    using inv m by (simp_all add: crawl_inv_def)
  have "p = 50" if "\<forall>j. \<not> stop_requested env j" and "urls_to_visit s \<noteq> []"
  proof -
    have "is_scraping s"
      using reach_running [OF r init_fields(8) [OF assms] that(1)] .
    moreover have "observe env k s = s"
      using that(1) by (simp add: observe_def)
    ultimately have "\<not> p < 50"
      using c that(2) m by (simp add: loop_cond_def)
    then show ?thesis using le by simp
  qed
  then show ?thesis
    using len le by (simp add: f v u)
qed

theorem page_budget_witness:
  "urls_to_visit (start_scraping regen_env demo_scraper) = [''https://example.com/p49''] \<and>
   length (fetched (trace (start_scraping regen_env demo_scraper))) = 50 \<and>
   length (visited_urls (start_scraping regen_env demo_scraper)) = 50"
proof -
  have u: "urls_to_visit (start_scraping regen_env demo_scraper) = [''https://example.com/p49'']"
    by code_simp
  have n: "\<forall>j. \<not> stop_requested regen_env j"
    by (simp add: regen_env_def demo_env_def)
  show ?thesis
    using page_budget [OF regen_init] u n by simp
qed

text \<open>
  C5: at the end of a run \<open>emails_found\<close> holds no address twice, and the trace holds the
  status line \<^verbatim>\<open>Found Email: a\<close> once for each address \<open>a\<close> of \<open>emails_found\<close> and not at
  all for any other; on a page, the lines emitted are those of the addresses not yet in the
  set, each at its first occurrence in the list of matches.
\<close>

theorem found_email_once:
  assumes "EmailScraper_init env seed = Inr s0"
  shows "distinct (emails_found (start_scraping env s0)) \<and>
         (\<forall>a. count_list (trace (start_scraping env s0)) (Status (''Found Email: '' @ a))
                = (if a \<in> set (emails_found (start_scraping env s0)) then 1 else 0)) \<and>
         (\<forall>s es.
            trace (add_emails s es) =
              trace s @ map (\<lambda>a. Status (''Found Email: '' @ a))
                (rev (remdups (rev (filter (\<lambda>a. a \<notin> set (emails_found s)) es)))) \<and>
            set (emails_found (add_emails s es)) = set (emails_found s) \<union> set es)"
proof -
  define sf where "sf = snd (scrape_loop env 0 0 s0)"
  have inv: "emails_inv sf"
    unfolding sf_def using assms by (rule final_emails_inv)
  have 1: "distinct (emails_found (start_scraping env s0))"
    using inv by (simp add: start_scraping_fields(2) sf_def emails_inv_def)
  have 2: "count_list (trace (start_scraping env s0)) (Status (''Found Email: '' @ a))
           = (if a \<in> set (emails_found (start_scraping env s0)) then 1 else 0)" for a
    using emails_inv_count [OF inv, of a]
    by (simp add: start_scraping_fields(1,2) sf_def)
  have 3: "trace (add_emails s es) =
              trace s @ map (\<lambda>a. Status (''Found Email: '' @ a))
                (rev (remdups (rev (filter (\<lambda>a. a \<notin> set (emails_found s)) es)))) \<and>
            set (emails_found (add_emails s es)) = set (emails_found s) \<union> set es" for s es
    using add_emails_effect [of s es] add_emails_set [of s es] by blast
  show ?thesis
    using 1 2 3 by blast
qed

theorem found_email_once_witness:
  "re_findall_email demo_env (get_text (projr (BeautifulSoup demo_env (response_text (projr
      (requests_get demo_env 0 ''https://example.com''))))))
     = [''a@b.com'', ''A@B.COM'', ''a@b.com''] \<and>
   emails_found (start_scraping demo_env demo_scraper) = [''c@b.com'', ''A@B.COM'', ''a@b.com''] \<and>
   count_list (trace (start_scraping demo_env demo_scraper)) (Status ''Found Email: a@b.com'') = 1 \<and>
   count_list (trace (start_scraping demo_env demo_scraper)) (Status ''Found Email: x@b.com'') = 0"
proof -
  have f: "re_findall_email demo_env (get_text (projr (BeautifulSoup demo_env (response_text
      (projr (requests_get demo_env 0 ''https://example.com''))))))
     = [''a@b.com'', ''A@B.COM'', ''a@b.com'']"
    by code_simp
  have e: "emails_found (start_scraping demo_env demo_scraper)
           = [''c@b.com'', ''A@B.COM'', ''a@b.com'']"
    by code_simp
  have c: "count_list (trace (start_scraping demo_env demo_scraper))
             (Status (''Found Email: '' @ a))
           = (if a \<in> set [''c@b.com'', ''A@B.COM'', ''a@b.com''] then 1 else 0)" for a
    using found_email_once [OF demo_init] unfolding e by blast
  show ?thesis
    using f e c [of "''a@b.com''"] c [of "''x@b.com''"] by simp
qed

text \<open>
  C6 as it is stated fails on a status that is not 2xx and on which \<^verbatim>\<open>raise_for_status\<close>
  does not raise: every page is answered \<^verbatim>\<open>300 Multiple Choices\<close>, and the run reports no
  error, takes the address of the page and follows its link.
\<close>

theorem unraised_status_counterexample:
  "status_code (projr (requests_get choices_env 0 ''https://example.com'')) = 300 \<and>
   \<not> (200 \<le> status_code (projr (requests_get choices_env 0 ''https://example.com'')) \<and>
      status_code (projr (requests_get choices_env 0 ''https://example.com'')) < 300) \<and>
   raise_for_status (projr (requests_get choices_env 0 ''https://example.com'')) = None \<and>
   trace (start_scraping choices_env demo_scraper)
     = [Status ''Visiting: https://example.com'', Get ''https://example.com'',
        Status ''Found Email: x@y.com'', Sleep 1,
        Status ''Visiting: https://example.com/n'', Get ''https://example.com/n'', Sleep 1,
        Status ''Scraping finished.'', Result [''x@y.com'']] \<and>
   emails_found (start_scraping choices_env demo_scraper) = [''x@y.com'']"
  by code_simp

text \<open>
  C6, amended: when \<^verbatim>\<open>requests.get\<close> raises a \<^verbatim>\<open>RequestException\<close> (a transport error or a
  timeout), or \<^verbatim>\<open>raise_for_status\<close> raises one (as the library does for a status from 400
  to 599), with text \<open>msg\<close>, the only effect of
  \<^verbatim>\<open>_crawl_page\<close> is the line \<^verbatim>\<open>Visiting\<close>, the request, and the line
  \<^verbatim>\<open>Error visiting {url}: {msg}\<close>: no address and no link is added. The iteration counts
  the page, sleeps, and the loop goes on to its next test.
\<close>

theorem failed_fetch_is_absorbed:
  assumes "loop_cond p (observe env k s)"
    and "pop env k (observe env k s) = (u, s1)"
    and "u \<notin> set (visited_urls s1)"
    and "requests_get env k u = Inl (RequestException msg) \<or>
         (\<exists>resp. requests_get env k u = Inr resp \<and>
            raise_for_status resp = Some (RequestException msg))"
  shows "crawl_page env k s1 u =
           s1\<lparr>trace := trace s1 @ [Status (''Visiting: '' @ u), Get u,
                                    Status (''Error visiting '' @ u @ '': '' @ msg)]\<rparr> \<and>
         scrape_loop env k p s =
           scrape_loop env (Suc k) (p + 1)
             (s1\<lparr>visited_urls := u # visited_urls s1,
                 trace := trace s1 @ [Status (''Visiting: '' @ u), Get u,
                                      Status (''Error visiting '' @ u @ '': '' @ msg),
                                      Sleep 1]\<rparr>) \<and>
         emails_found s1 = emails_found s \<and>
         set (urls_to_visit s1) \<subseteq> set (urls_to_visit s)"
proof -
  define s2 where "s2 = s1\<lparr>visited_urls := List.insert u (visited_urls s1)\<rparr>"
  have 1: "crawl_page env k s1 u =
           s1\<lparr>trace := trace s1 @ [Status (''Visiting: '' @ u), Get u,
                                    Status (''Error visiting '' @ u @ '': '' @ msg)]\<rparr>"
    using assms(4) by (rule crawl_page_request_failed)
  have c2: "crawl_page env k s2 u =
           s2\<lparr>trace := trace s2 @ [Status (''Visiting: '' @ u), Get u,
                                    Status (''Error visiting '' @ u @ '': '' @ msg)]\<rparr>"
    using assms(4) by (rule crawl_page_request_failed)
  have b: "loop_body env k p (observe env k s) = (p + 1, emit (Sleep 1) (crawl_page env k s2 u))"
    using assms(2,3) by (simp add: loop_body_def Let_def s2_def)
  have "scrape_loop env k p s = scrape_loop env (Suc k) (p + 1) (emit (Sleep 1) (crawl_page env k s2 u))"
    using assms(1) b by (subst scrape_loop.simps) simp
  also have "emit (Sleep 1) (crawl_page env k s2 u) =
      s1\<lparr>visited_urls := u # visited_urls s1,
          trace := trace s1 @ [Status (''Visiting: '' @ u), Get u,
                               Status (''Error visiting '' @ u @ '': '' @ msg), Sleep 1]\<rparr>"
    unfolding c2 using assms(3) by (simp add: s2_def emit_def)
  finally have 2: "scrape_loop env k p s =
           scrape_loop env (Suc k) (p + 1)
             (s1\<lparr>visited_urls := u # visited_urls s1,
                 trace := trace s1 @ [Status (''Visiting: '' @ u), Get u,
                                      Status (''Error visiting '' @ u @ '': '' @ msg),
                                      Sleep 1]\<rparr>)" .
  have 3: "emails_found s1 = emails_found s"
    using assms(2) by (auto simp: pop_def Let_def)
  have 4: "set (urls_to_visit s1) \<subseteq> set (urls_to_visit s)"
    using assms(2) by (auto simp: pop_def Let_def dest: in_set_takeD in_set_dropD)
  show ?thesis
    using 1 2 3 4 by blast
qed

theorem failed_fetch_is_absorbed_witness:
  "urls_to_visit demo_scraper_1 = [''https://example.com/missing'', ''https://example.com/a/b.html''] \<and>
   raise_for_status (projr (requests_get demo_env 1 ''https://example.com/missing''))
     = Some (RequestException
         ''404 Client Error: Not Found for url: https://example.com/missing'') \<and>
   scrape_loop demo_env 1 1 demo_scraper_1 =
     scrape_loop demo_env 2 2
       (demo_scraper_1\<lparr>urls_to_visit := [''https://example.com/a/b.html''],
          visited_urls := [''https://example.com/missing'', ''https://example.com''],
          trace := trace demo_scraper_1 @
            [Status ''Visiting: https://example.com/missing'',
             Get ''https://example.com/missing'',
             Status ''Error visiting https://example.com/missing: 404 Client Error: Not Found for url: https://example.com/missing'',
             Sleep 1]\<rparr>)"
proof -
  define s1 where "s1 = demo_scraper_1\<lparr>urls_to_visit := [''https://example.com/a/b.html'']\<rparr>"
  have u: "urls_to_visit demo_scraper_1
           = [''https://example.com/missing'', ''https://example.com/a/b.html'']"
    unfolding demo_scraper_1_def by code_simp
  have v: "visited_urls demo_scraper_1 = [''https://example.com'']"
    unfolding demo_scraper_1_def by code_simp
  have r: "is_scraping demo_scraper_1" "max_pages demo_scraper_1 = 50"
    unfolding demo_scraper_1_def by code_simp+
  have o: "observe demo_env 1 demo_scraper_1 = demo_scraper_1"
    by (simp add: observe_def demo_env_def)
  have c: "loop_cond 1 (observe demo_env 1 demo_scraper_1)"
    unfolding o by (simp add: loop_cond_def u r)
  have p: "pop demo_env 1 (observe demo_env 1 demo_scraper_1) = (''https://example.com/missing'', s1)"
    unfolding o by (simp add: pop_def u demo_env_def s1_def)
  have nv: "''https://example.com/missing'' \<notin> set (visited_urls s1)"
    by (simp add: s1_def v)
  have g: "requests_get demo_env 1 ''https://example.com/missing''
           = Inr \<lparr>status_code = 404, raise_for_status = Some (RequestException
                ''404 Client Error: Not Found for url: https://example.com/missing''),
                response_text = []\<rparr>"
    by (simp add: demo_env_def demo_get_def)
  have f: "requests_get demo_env 1 ''https://example.com/missing''
             = Inl (RequestException
                 ''404 Client Error: Not Found for url: https://example.com/missing'') \<or>
           (\<exists>resp. requests_get demo_env 1 ''https://example.com/missing'' = Inr resp \<and>
              raise_for_status resp = Some (RequestException
                 ''404 Client Error: Not Found for url: https://example.com/missing''))"
    unfolding g by simp
  show ?thesis
    using failed_fetch_is_absorbed [OF c p nv f] u g
    by (simp add: s1_def v numeral_2_eq_2)
qed

text \<open>
  C7: a run of \<^verbatim>\<open>start_scraping\<close> returns, and its last two effects are the status line
  \<^verbatim>\<open>Scraping finished.\<close> and then the one call of \<^verbatim>\<open>result_callback\<close> of the run, with a
  list that holds each address of \<open>emails_found\<close> once; \<open>is_scraping\<close> is then false. This
  holds for every network, every choice of \<^verbatim>\<open>pop\<close> and every moment of cancellation.
\<close>

theorem run_ends_with_completion:
  assumes "EmailScraper_init env seed = Inr s0"
  shows "\<exists>evs emails.
           trace (start_scraping env s0)
             = evs @ [Status ''Scraping finished.'', Result emails] \<and>
           results evs = [] \<and>
           results (trace (start_scraping env s0)) = [emails] \<and>
           distinct emails \<and>
           set emails = set (emails_found (start_scraping env s0)) \<and>
           \<not> is_scraping (start_scraping env s0)"
  using assms by (rule start_scraping_completion)

theorem run_ends_with_completion_witness:
  "trace (start_scraping dead_env demo_scraper)
     = [Status ''Visiting: https://example.com'', Get ''https://example.com'',
        Status ''Error visiting https://example.com: connection refused'', Sleep 1]
       @ [Status ''Scraping finished.'', Result []] \<and>
   results (trace (start_scraping dead_env demo_scraper)) = [[]] \<and>
   \<not> is_scraping (start_scraping dead_env demo_scraper)"
proof -
  have t: "trace (start_scraping dead_env demo_scraper)
     = [Status ''Visiting: https://example.com'', Get ''https://example.com'',
        Status ''Error visiting https://example.com: connection refused'', Sleep 1]
       @ [Status ''Scraping finished.'', Result []]"
    by code_simp
  show ?thesis
    using run_ends_with_completion [OF dead_init] t by auto
qed

text \<open>
  C8 as it is stated fails: the list that the run hands to \<^verbatim>\<open>result_callback\<close> is
  \<^verbatim>\<open>list(self.emails_found)\<close>, in the order of the set, and on the demo web it is not sorted.
\<close>

theorem delivered_list_unsorted_counterexample:
  "results (trace (start_scraping demo_env demo_scraper))
     = [[''c@b.com'', ''A@B.COM'', ''a@b.com'']] \<and>
   \<not> sorted [''c@b.com'', ''A@B.COM'', ''a@b.com'']"
  by code_simp

text \<open>
  C8, amended: a run hands the addresses of \<open>emails_found\<close> to \<^verbatim>\<open>result_callback\<close> once, at
  its end, each address once and in the order of the set; \<^verbatim>\<open>display_results\<close>, the callback
  that \<^verbatim>\<open>run_scraper\<close> installs, writes that list into the results textbox in sorted order,
  one address per line, under a line that counts them.
\<close>

theorem results_delivered_once_displayed_sorted:
  assumes "EmailScraper_init env seed = Inr s0"
  shows "\<exists>delivered.
           results (trace (start_scraping env s0)) = [delivered] \<and>
           delivered = list_of_set env (emails_found (start_scraping env s0)) \<and>
           distinct delivered \<and>
           set delivered = set (emails_found (start_scraping env s0)) \<and>
           sorted (sort delivered) \<and> distinct (sort delivered) \<and>
           set (sort delivered) = set (emails_found (start_scraping env s0)) \<and>
           results_textbox (run_scraper env seed w) =
             (if delivered \<noteq> []
              then ''Found '' @ str_nat (length delivered) @ '' unique email(s):''
                     @ [newline, newline]
                     @ concat (map (\<lambda>email. email @ [newline]) (sort delivered))
              else ''No emails found.'')"
proof -
  define delivered where "delivered = list_of_set env (emails_found (start_scraping env s0))"
  define evs where "evs = trace (snd (scrape_loop env 0 0 s0))"
  have t: "trace (start_scraping env s0) = evs @ [Status ''Scraping finished.'', Result delivered]"
    by (simp add: start_scraping_fields(1,2) evs_def delivered_def)
  obtain k p s where l: "scrape_loop env 0 0 s0 = (p, observe env k s)"
    and inv: "crawl_inv p s"
    using final_state [OF assms] by blast
  have "results evs = []"
    using inv by (simp add: evs_def l crawl_inv_def)
  then have r: "results (trace (start_scraping env s0)) = [delivered]"
    unfolding t by simp
  have "distinct (emails_found (start_scraping env s0))"
    using final_emails_inv [OF assms] by (simp add: emails_inv_def start_scraping_fields(2))
  then have d: "distinct delivered"
    by (simp add: delivered_def list_of_set_props)
  have s: "set delivered = set (emails_found (start_scraping env s0))"
    by (simp add: delivered_def list_of_set_props)
  have "run_scraper env seed w = foldl deliver w (trace (start_scraping env s0))"
    by (simp add: run_scraper_def assms)
  also have "\<dots> = display_results delivered
                     (update_status ''Scraping finished.'' (foldl deliver w evs))"
    unfolding t by (rule foldl_deliver_append)
  finally have b: "results_textbox (run_scraper env seed w) =
     (if delivered \<noteq> []
      then ''Found '' @ str_nat (length delivered) @ '' unique email(s):''
             @ [newline, newline]
             @ concat (map (\<lambda>email. email @ [newline]) (sort delivered))
      else ''No emails found.'')"
    by (simp add: display_results_textbox)
  have "sorted (sort delivered)" "distinct (sort delivered)"
    "set (sort delivered) = set (emails_found (start_scraping env s0))"
    using d s by simp_all
  then show ?thesis
    using r d s b delivered_def by blast
qed

theorem results_delivered_once_displayed_sorted_witness:
  "results (trace (start_scraping demo_env demo_scraper))
     = [[''c@b.com'', ''A@B.COM'', ''a@b.com'']] \<and>
   sort [''c@b.com'', ''A@B.COM'', ''a@b.com''] = [''A@B.COM'', ''a@b.com'', ''c@b.com''] \<and>
   results_textbox (run_scraper demo_env ''https://example.com''
       \<lparr>status_label = [], results_textbox = [], extract_button_enabled = False\<rparr>)
     = ''Found 3 unique email(s):'' @ [newline, newline] @
       ''A@B.COM'' @ [newline] @ ''a@b.com'' @ [newline] @ ''c@b.com'' @ [newline]"
proof -
  let ?w = "\<lparr>status_label = [], results_textbox = [], extract_button_enabled = False\<rparr>"
  have r: "results (trace (start_scraping demo_env demo_scraper))
           = [[''c@b.com'', ''A@B.COM'', ''a@b.com'']]"
    by code_simp
  have so: "sort [''c@b.com'', ''A@B.COM'', ''a@b.com''] = [''A@B.COM'', ''a@b.com'', ''c@b.com'']"
    by code_simp
  obtain delivered where 1: "results (trace (start_scraping demo_env demo_scraper)) = [delivered]"
    and 2: "results_textbox (run_scraper demo_env ''https://example.com'' ?w) =
             (if delivered \<noteq> []
              then ''Found '' @ str_nat (length delivered) @ '' unique email(s):''
                     @ [newline, newline]
                     @ concat (map (\<lambda>email. email @ [newline]) (sort delivered))
              else ''No emails found.'')"
    using results_delivered_once_displayed_sorted [OF demo_init, of ?w] by blast
  have "delivered = [''c@b.com'', ''A@B.COM'', ''a@b.com'']"
    using 1 r by simp
  then show ?thesis
    using 2 r so by (simp add: str_nat.simps)
qed




text \<open>
  C10: the comparison is on the netloc. In every state of the loop, a URL whose netloc
  differs from the netloc of the seed is refused by \<^verbatim>\<open>_is_valid_url\<close> and is not in
  \<open>urls_to_visit\<close>, whatever its host name; so a URL on the seed's host with a port or with
  user information is out of scope.
\<close>

theorem netloc_scoping:
  assumes "EmailScraper_init env seed = Inr s0"
    and "reach env s0 k p s"
    and "urlparse env seed = Inr seed_parsed"
    and "urlparse env url = Inr parsed"
    and "netloc parsed \<noteq> netloc seed_parsed"
  shows "\<not> is_valid_url env s url \<and> url \<notin> set (urls_to_visit s)"
proof -
  have d0: "domain s0 = netloc seed_parsed"
    using init_fields(1) [OF assms(1)] assms(3) by simp
  have sc: "domain s = domain s0"
    "\<forall>u \<in> set (urls_to_visit s).
            \<exists>parsed. urlparse env u = Inr parsed \<and> netloc parsed = domain s0"
    using reach_scoped [OF assms(2,1)] by simp_all
  have "\<not> is_valid_url env s url"
    using assms(4,5) sc(1) d0 by (simp add: is_valid_url_iff)
  moreover have "url \<notin> set (urls_to_visit s)"
    using sc(2) assms(4,5) d0 by auto
  ultimately show ?thesis by simp
qed

theorem netloc_scoping_witness:
  "urlparse demo_env ''https://example.com:8080/x''
     = Inr \<lparr>scheme = ''https'', netloc = ''example.com:8080''\<rparr> \<and>
   urlparse demo_env ''https://example.com''
     = Inr \<lparr>scheme = ''https'', netloc = ''example.com''\<rparr> \<and>
   ''https://example.com:8080/x'' \<in> set (find_all_a_href
       (projr (BeautifulSoup demo_env (response_text (projr
          (requests_get demo_env 0 ''https://example.com'')))))) \<and>
   \<not> is_valid_url demo_env (snd (loop_body demo_env 0 0 demo_scraper))
       ''https://example.com:8080/x'' \<and>
   ''https://example.com:8080/x'' \<notin>
      set (urls_to_visit (snd (loop_body demo_env 0 0 demo_scraper)))"
proof -
  have p1: "urlparse demo_env ''https://example.com:8080/x''
     = Inr \<lparr>scheme = ''https'', netloc = ''example.com:8080''\<rparr>"
    by code_simp
  have p0: "urlparse demo_env ''https://example.com''
     = Inr \<lparr>scheme = ''https'', netloc = ''example.com''\<rparr>"
    by code_simp
  have l: "''https://example.com:8080/x'' \<in> set (find_all_a_href
       (projr (BeautifulSoup demo_env (response_text (projr
          (requests_get demo_env 0 ''https://example.com''))))))"
    by code_simp
  have o: "observe demo_env 0 demo_scraper = demo_scraper"
    by (simp add: observe_def demo_env_def)
  have c: "loop_cond 0 (observe demo_env 0 demo_scraper)"
    unfolding o by (simp add: loop_cond_def demo_scraper_def)
  have b: "loop_body demo_env 0 0 (observe demo_env 0 demo_scraper)
           = (fst (loop_body demo_env 0 0 demo_scraper), snd (loop_body demo_env 0 0 demo_scraper))"
    unfolding o by simp
  have r: "reach demo_env demo_scraper (Suc 0) (fst (loop_body demo_env 0 0 demo_scraper))
             (snd (loop_body demo_env 0 0 demo_scraper))"
    using reach_start c b by (rule reach_step)
  have n: "netloc \<lparr>scheme = ''https'', netloc = ''example.com:8080''\<rparr>
           \<noteq> netloc \<lparr>scheme = ''https'', netloc = ''example.com''\<rparr>"
    by simp
  show ?thesis
    using netloc_scoping [OF demo_init r p0 p1 n] p1 p0 l by simp
qed

end
